theory Spec2Isabelle
  imports
    Main
    "HOL-Library.Char_ord"
    "HOL-Library.List_Lexorder"
    "HOL-Library.Product_Lexorder"
    "HOL-Library.Signed_Division"
begin

section \<open>Exodus fee cache and fee history (src/exodus/fees.cpp)\<close>

text \<open>
  The two classes of fees.cpp, \<open>CExodusFeeCache\<close> and \<open>CExodusFeeHistory\<close>, each keep one
  LevelDB table of text records. The embedding follows the file function by function:
  numbers are printed and parsed as decimal text, records are split at their delimiters,
  a \<open>std::set\<close> is the strictly ascending list of its elements, a table is the list of
  its records in key order, and every exception or failed assertion is a \<open>fault\<close> value.
\<close>

subsection \<open>Machine integers\<close>

text \<open>
  \<open>int\<close> (32 bit) and \<open>int64_t\<close> values are HOL integers; where the C++ arithmetic
  can leave the range, the two's complement wrap-around is written out.
\<close>

definition INT64_MAX :: int where
  "INT64_MAX = 2 ^ 63 - 1"

definition int32_range :: "int \<Rightarrow> bool" where
  "int32_range x \<longleftrightarrow> - (2 ^ 31) \<le> x \<and> x < 2 ^ 31"

definition int64_range :: "int \<Rightarrow> bool" where
  "int64_range x \<longleftrightarrow> - (2 ^ 63) \<le> x \<and> x < 2 ^ 63"

definition int32_wrap :: "int \<Rightarrow> int" where
  "int32_wrap x = (x + 2 ^ 31) mod 2 ^ 32 - 2 ^ 31"

definition int64_wrap :: "int \<Rightarrow> int" where
  "int64_wrap x = (x + 2 ^ 63) mod 2 ^ 64 - 2 ^ 63"

subsection \<open>Decimal text: strprintf and boost::lexical_cast\<close>

definition digit_char :: "int \<Rightarrow> char" where
  "digit_char d = char_of (48 + d)"

text \<open>The decimal digits of a value that is not negative.\<close>

function fmt_digits :: "int \<Rightarrow> string" where
  "fmt_digits n =
     (if n < 10 then [digit_char n] else fmt_digits (n div 10) @ [digit_char (n mod 10)])"
  by pat_completeness auto
termination
  by (relation "measure nat") auto

declare fmt_digits.simps [simp del]

text \<open>\<open>strprintf("%d", v)\<close> for an integer value of any of the C++ integer types.\<close>

definition fmt_int :: "int \<Rightarrow> string" where
  "fmt_int i = (if i < 0 then CHR ''-'' # fmt_digits (- i) else fmt_digits i)"

text \<open>\<open>strprintf("%010d", propertyId)\<close>: zero padded to ten characters.\<close>

definition fmt_010d :: "nat \<Rightarrow> string" where
  "fmt_010d n = replicate (10 - length (fmt_int (int n))) CHR ''0'' @ fmt_int (int n)"

definition is_digit :: "char \<Rightarrow> bool" where
  "is_digit c \<longleftrightarrow> 48 \<le> (of_char c :: int) \<and> (of_char c :: int) \<le> 57"

definition digit_val :: "char \<Rightarrow> int" where
  "digit_val c = of_char c - 48"

text \<open>
  The digit loop of \<open>boost::lexical_cast\<close>: at least one character, decimal digits only
  (leading zeros are accepted); anything else is a conversion failure.
\<close>

definition lcast_digits :: "string \<Rightarrow> int option" where
  "lcast_digits s =
     (if s \<noteq> [] \<and> list_all is_digit s
      then Some (foldl (\<lambda>acc c. 10 * acc + digit_val c) 0 s) else None)"

text \<open>
  \<open>boost::lexical_cast\<close> to a signed type of the given width: an optional sign, the
  digits, and a range check; \<open>None\<close> is the exception \<open>bad_lexical_cast\<close>.
\<close>

definition lexical_cast_signed :: "nat \<Rightarrow> string \<Rightarrow> int option" where
  "lexical_cast_signed bits s =
     (case s of
        [] \<Rightarrow> None
      | c # cs \<Rightarrow>
          (let has_minus = (c = CHR ''-'');
               body = (if has_minus \<or> c = CHR ''+'' then cs else s)
           in case lcast_digits body of
                None \<Rightarrow> None
              | Some v \<Rightarrow>
                  if has_minus
                  then (if v \<le> 2 ^ (bits - 1) then Some (- v) else None)
                  else (if v \<le> 2 ^ (bits - 1) - 1 then Some v else None)))"

text \<open>
  \<open>boost::lexical_cast\<close> to an unsigned type: the digits must fit the type, and a leading
  minus sign negates the value modulo the type's size.
\<close>

definition lexical_cast_unsigned :: "nat \<Rightarrow> string \<Rightarrow> nat option" where
  "lexical_cast_unsigned bits s =
     (case s of
        [] \<Rightarrow> None
      | c # cs \<Rightarrow>
          (let has_minus = (c = CHR ''-'');
               body = (if has_minus \<or> c = CHR ''+'' then cs else s)
           in case lcast_digits body of
                None \<Rightarrow> None
              | Some v \<Rightarrow>
                  if v \<le> 2 ^ bits - 1
                  then Some (nat (if has_minus then (2 ^ bits - v) mod 2 ^ bits else v))
                  else None))"

abbreviation lexical_cast_int :: "string \<Rightarrow> int option" where
  "lexical_cast_int \<equiv> lexical_cast_signed 32"

abbreviation lexical_cast_int64 :: "string \<Rightarrow> int option" where
  "lexical_cast_int64 \<equiv> lexical_cast_signed 64"

abbreviation lexical_cast_uint32 :: "string \<Rightarrow> nat option" where
  "lexical_cast_uint32 \<equiv> lexical_cast_unsigned 32"

subsection \<open>boost::split with token_compress_on\<close>

text \<open>
  \<open>boost::split(result, input, boost::is_any_of(d), boost::token_compress_on)\<close>: the token
  before the first run of delimiters, then the tokens of what follows the run. A run of
  adjacent delimiters counts once; a delimiter at the start or the end still leaves an
  empty token there, and the empty input is one empty token.
\<close>

function split_compress :: "(char \<Rightarrow> bool) \<Rightarrow> string \<Rightarrow> string list" where
  "split_compress P s =
     (let tok = takeWhile (\<lambda>c. \<not> P c) s;
          rest = dropWhile (\<lambda>c. \<not> P c) s
      in if rest = [] then [tok] else tok # split_compress P (dropWhile P rest))"
  by pat_completeness auto
termination
proof (relation "measure (\<lambda>(P, s). length s)")
  show "wf (measure (\<lambda>(P :: char \<Rightarrow> bool, s :: string). length s))"
    by simp
next
  fix P :: "char \<Rightarrow> bool" and s tok rest :: string
  assume rest: "rest = dropWhile (\<lambda>c. \<not> P c) s" and ne: "rest \<noteq> []"
  from ne obtain c cs where c: "rest = c # cs"
    by (cases rest) auto
  from rest c have "dropWhile (\<lambda>c. \<not> P c) s = c # cs"
    by simp
  then have "P c"
    by (simp add: dropWhile_eq_Cons_conv)
  then have "length (dropWhile P rest) \<le> length cs"
    using c by (simp add: length_dropWhile_le)
  moreover have "length rest \<le> length s"
    using rest by (simp add: length_dropWhile_le)
  ultimately show "((P, dropWhile P rest), (P, s)) \<in> measure (\<lambda>(P, s). length s)"
    using c by simp
qed

declare split_compress.simps [simp del]

definition is_any_of :: "string \<Rightarrow> char \<Rightarrow> bool" where
  "is_any_of ds c \<longleftrightarrow> c \<in> set ds"

subsection \<open>std::set and the LevelDB tables\<close>

text \<open>
  A \<open>std::set\<close> is the ascending list of its elements; \<open>insert\<close> leaves the set alone
  when the element is already there. Pairs are ordered lexicographically and strings
  bytewise, as \<open>std::pair\<close> and \<open>std::string\<close> are.
\<close>

definition set_insert :: "'a::linorder \<Rightarrow> 'a list \<Rightarrow> 'a list" where
  "set_insert x xs = (if x \<in> set xs then xs else insort x xs)"

text \<open>
  A LevelDB table is the list of its records in key order. \<open>Get\<close> finds the record of a
  key, \<open>Put\<close> replaces it or adds it at its place, \<open>Delete\<close> removes it. A failing store
  (\<open>assert(status.ok())\<close>) is not modelled: the store is taken to work.
\<close>

type_synonym leveldb = "(string \<times> string) list"

definition db_get :: "leveldb \<Rightarrow> string \<Rightarrow> string option" where
  "db_get db k = map_of db k"

fun db_put :: "string \<Rightarrow> string \<Rightarrow> leveldb \<Rightarrow> leveldb" where
  "db_put k v [] = [(k, v)]"
| "db_put k v ((k', v') # db) =
     (if k = k' then (k, v) # db
      else if k < k' then (k, v) # (k', v') # db
      else (k', v') # db_put k v db)"

definition db_delete :: "string \<Rightarrow> leveldb \<Rightarrow> leveldb" where
  "db_delete k db = filter (\<lambda>r. fst r \<noteq> k) db"

subsection \<open>Environment, state and faults\<close>

text \<open>
  Modelled from the spec: the item types \<open>feeCacheItem\<close> and \<open>feeHistoryItem\<close>, declared
  in exodus/fees.h, which is not among the sources. A fee cache entry is a (block height,
  cumulative amount) pair and a recipient an (address, amount) pair. fees.cpp compares the
  block of an entry with an \<open>int\<close> block and prints it with \<open>%d\<close>, and reads every
  amount as an \<open>int64_t\<close>: the block is taken to be an \<open>int\<close>, the amounts \<open>int64_t\<close>.
\<close>

type_synonym feeCacheItem = "int \<times> int"
type_synonym feeHistoryItem = "string \<times> int"

text \<open>The balance ledger: the BALANCE tally of an address for a property.\<close>

type_synonym tally_map = "string \<times> nat \<Rightarrow> int"

text \<open>
  What fees.cpp takes from the rest of the node: constants of the rules, the two run-time
  switches (\<open>exodus_debug_fees\<close>, \<open>-overrideforcedshutdown\<close>), the property database
  (\<open>getTotalTokens\<close>, \<open>peekNextSPID\<close>, \<open>isTestEcosystemProperty\<close>), the send-to-owners
  snapshot (\<open>STO_GetReceivers\<close>, its receivers in the order of the returned set) and the
  condition under which the ledger accepts a credit.
\<close>

record env =
  MAX_STATE_HISTORY :: int
  EXODUS_FEE_THRESHOLD :: int
  TEST_ECO_PROPERTY_1 :: nat
  EXODUS_PROPERTY_EXODUS :: nat
  EXODUS_PROPERTY_TEXODUS :: nat
  exodus_debug_fees :: bool
  overrideforcedshutdown :: bool
  getTotalTokens :: "nat \<Rightarrow> int"
  peekNextSPID :: "nat \<Rightarrow> nat"
  isTestEcosystemProperty :: "nat \<Rightarrow> bool"
  STO_GetReceivers :: "tally_map \<Rightarrow> string \<Rightarrow> nat \<Rightarrow> int \<Rightarrow> (int \<times> string) list"
  tally_accepts :: "tally_map \<Rightarrow> string \<Rightarrow> nat \<Rightarrow> int \<Rightarrow> bool"

text \<open>
  The state the file reads and writes: the two tables, the global map
  \<open>distributionThresholds\<close>, the ledger, whether the directory \<open>MP_persist\<close> exists, and
  the fatal reports written to the log. Debug and informational log lines and the counters
  \<open>nWritten\<close> and \<open>nRead\<close> influence nothing and are left out.
\<close>

record state =
  feecache :: leveldb
  feehistory :: leveldb
  distributionThresholds :: "nat \<Rightarrow> int option"
  mp_tally_map :: tally_map
  MP_persist :: bool
  fatal_log :: "string list"

text \<open>
  How a call can end other than by returning: an uncaught \<open>bad_lexical_cast\<close>, a failed
  \<open>assert\<close>, or the node aborted with a message, in the state it was aborted in.
\<close>

datatype fault = bad_lexical_cast | assertion_failed | node_aborted string state

text \<open>
  Modelled from the spec: \<open>AbortNode\<close> (declared in main.h, defined outside fees.cpp). The
  spec has the fatal accounting fault halt the process, so the call ends there.
\<close>

definition AbortNode :: "string \<Rightarrow> state \<Rightarrow> fault + state" where
  "AbortNode msg st = Inl (node_aborted msg st)"

text \<open>
  Modelled from the spec: \<open>update_tally_map\<close> (the balance ledger, outside fees.cpp). The spec
  gives \<open>creditBalance(address, propertyId, amount, kind) -> success/failure\<close>, mutating the
  ledger: a success adds the amount to the address's balance of the property, a failure
  (\<open>None\<close>) changes nothing. When the ledger refuses is left to the environment.
\<close>

definition update_tally_map :: "env \<Rightarrow> tally_map \<Rightarrow> string \<Rightarrow> nat \<Rightarrow> int \<Rightarrow> tally_map option" where
  "update_tally_map env t address propertyId amount =
     (if tally_accepts env t address propertyId amount
      then Some (t((address, propertyId) := t (address, propertyId) + amount))
      else None)"

subsection \<open>CExodusFeeCache\<close>

text \<open>\<open>distributionThresholds[propertyId]\<close>: \<open>std::map::operator[]\<close> adds a missing key with value 0.\<close>

definition thresholds_at :: "state \<Rightarrow> nat \<Rightarrow> int \<times> state" where
  "thresholds_at st propertyId =
     (case distributionThresholds st propertyId of
        Some t \<Rightarrow> (t, st)
      | None \<Rightarrow> (0, st\<lparr>distributionThresholds := (distributionThresholds st)(propertyId \<mapsto> 0)\<rparr>))"

definition GetDistributionThreshold :: "state \<Rightarrow> nat \<Rightarrow> int \<times> state" where
  "GetDistributionThreshold st propertyId = thresholds_at st propertyId"

definition UpdateDistributionThresholds :: "env \<Rightarrow> state \<Rightarrow> nat \<Rightarrow> state" where
  "UpdateDistributionThresholds env st propertyId =
     (let distributionThreshold = getTotalTokens env propertyId sdiv EXODUS_FEE_THRESHOLD env;
          distributionThreshold = (if distributionThreshold \<le> 0 then 1 else distributionThreshold)
      in st\<lparr>distributionThresholds := (distributionThresholds st)(propertyId \<mapsto> distributionThreshold)\<rparr>)"

text \<open>\<open>strprintf("%d:%d", item.first, item.second)\<close>\<close>

definition fmt_cache_item :: "feeCacheItem \<Rightarrow> string" where
  "fmt_cache_item item = fmt_int (fst item) @ '':'' @ fmt_int (snd item)"

text \<open>
  The loop of \<open>GetCacheHistory\<close> over the comma separated entries. An entry that does not
  split into two fields is reported and skipped; a field that is not a number throws. The
  parsed block is an \<open>int64_t\<close> that the pair stores as \<open>int\<close>.
\<close>

fun GetCacheHistory_loop :: "string list \<Rightarrow> feeCacheItem list \<Rightarrow> fault + feeCacheItem list" where
  "GetCacheHistory_loop [] sCacheHistoryItems = Inr sCacheHistoryItems"
| "GetCacheHistory_loop (it # rest) sCacheHistoryItems =
     (let vCacheHistoryItem = split_compress (is_any_of '':'') it
      in if 2 \<noteq> length vCacheHistoryItem then GetCacheHistory_loop rest sCacheHistoryItems
         else
           (case lexical_cast_int64 (vCacheHistoryItem ! 0) of
              None \<Rightarrow> Inl bad_lexical_cast
            | Some cacheItemBlock \<Rightarrow>
                (case lexical_cast_int64 (vCacheHistoryItem ! 1) of
                   None \<Rightarrow> Inl bad_lexical_cast
                 | Some cacheItemAmount \<Rightarrow>
                     GetCacheHistory_loop rest
                       (set_insert (int32_wrap cacheItemBlock, cacheItemAmount) sCacheHistoryItems))))"

definition GetCacheHistory :: "leveldb \<Rightarrow> nat \<Rightarrow> fault + feeCacheItem list" where
  "GetCacheHistory db propertyId =
     (case db_get db (fmt_010d propertyId) of
        None \<Rightarrow> Inr []
      | Some strValue \<Rightarrow> GetCacheHistory_loop (split_compress (is_any_of '','') strValue) [])"

definition GetCachedAmount :: "leveldb \<Rightarrow> nat \<Rightarrow> fault + int" where
  "GetCachedAmount db propertyId =
     (case GetCacheHistory db propertyId of
        Inl e \<Rightarrow> Inl e
      | Inr sCacheHistoryItems \<Rightarrow>
          Inr (if sCacheHistoryItems \<noteq> [] then snd (last sCacheHistoryItems) else 0))"

text \<open>
  The rewriting loop shared by \<open>ClearCache\<close>, \<open>AddFee\<close>, \<open>RollBackCache\<close> and \<open>PruneCache\<close>:
  every entry that is not skipped (\<open>continue\<close>) is added to \<open>newValue\<close>, after a comma when
  \<open>newValue\<close> is not empty.
\<close>

fun readd_entries :: "(feeCacheItem \<Rightarrow> bool) \<Rightarrow> feeCacheItem list \<Rightarrow> string \<Rightarrow> string" where
  "readd_entries skip [] newValue = newValue"
| "readd_entries skip (tempItem # rest) newValue =
     (if skip tempItem then readd_entries skip rest newValue
      else readd_entries skip rest
             ((if newValue \<noteq> [] then newValue @ '','' else newValue) @ fmt_cache_item tempItem))"

text \<open>
  \<open>PruneCache\<close>. The \<open>continue\<close> that discards a matured entry stands inside the
  \<open>if (exodus_debug_fees)\<close> block, so an entry is skipped only when the switch is on.
\<close>

definition PruneCache :: "env \<Rightarrow> leveldb \<Rightarrow> nat \<Rightarrow> int \<Rightarrow> fault + leveldb" where
  "PruneCache env db propertyId block =
     (let pruneBlock = int32_wrap (block - MAX_STATE_HISTORY env)
      in case GetCacheHistory db propertyId of
           Inl e \<Rightarrow> Inl e
         | Inr sCacheHistoryItems \<Rightarrow>
             if sCacheHistoryItems \<noteq> [] then
               (if fst (hd sCacheHistoryItems) \<ge> pruneBlock then Inr db
                else
                  (let newValue =
                         readd_entries (\<lambda>tempItem. fst tempItem < pruneBlock \<and> exodus_debug_fees env)
                           sCacheHistoryItems [];
                       newValue =
                         (if newValue = [] then fmt_cache_item (last sCacheHistoryItems)
                          else newValue)
                   in Inr (db_put (fmt_010d propertyId) newValue db)))
             else Inr db)"

text \<open>
  The value that \<open>ClearCache\<close> and \<open>AddFee\<close> write: the entries of other blocks, then the
  entry of this block.
\<close>

definition rewrite_with :: "feeCacheItem list \<Rightarrow> int \<Rightarrow> int \<Rightarrow> string" where
  "rewrite_with sCacheHistoryItems block amount =
     (let newValue =
            (if sCacheHistoryItems \<noteq> [] then
               (let newValue = readd_entries (\<lambda>tempItem. fst tempItem = block) sCacheHistoryItems []
                in if newValue \<noteq> [] then newValue @ '','' else newValue)
             else [])
      in newValue @ fmt_cache_item (block, amount))"

definition ClearCache :: "env \<Rightarrow> leveldb \<Rightarrow> nat \<Rightarrow> int \<Rightarrow> fault + leveldb" where
  "ClearCache env db propertyId block =
     (case GetCacheHistory db propertyId of
        Inl e \<Rightarrow> Inl e
      | Inr sCacheHistoryItems \<Rightarrow>
          PruneCache env
            (db_put (fmt_010d propertyId) (rewrite_with sCacheHistoryItems block 0) db)
            propertyId block)"

subsection \<open>CExodusFeeHistory\<close>

definition CountRecords :: "leveldb \<Rightarrow> int" where
  "CountRecords db = int (length db)"

text \<open>\<open>strprintf("%s=%d,", recipient.first, recipient.second)\<close>\<close>

definition fmt_recipient :: "feeHistoryItem \<Rightarrow> string" where
  "fmt_recipient r = fst r @ ''='' @ fmt_int (snd r) @ '',''"

definition RecordFeeDistribution ::
    "leveldb \<Rightarrow> nat \<Rightarrow> int \<Rightarrow> int \<Rightarrow> feeHistoryItem list \<Rightarrow> leveldb" where
  "RecordFeeDistribution db propertyId block total_amount feeRecipients =
     (let count = CountRecords db + 1;
          key = fmt_int count;
          feeRecipientsStr =
            (if feeRecipients \<noteq> [] then
               (let str = foldl (\<lambda>str tempRecipient. str @ fmt_recipient tempRecipient) [] feeRecipients
                in if length str > 0 then take (length str - 1) str else str)
             else []);
          val = fmt_int block @ '':'' @ fmt_int (int propertyId) @ '':'' @ fmt_int total_amount @ '':''
                  @ feeRecipientsStr
      in db_put key val db)"

text \<open>
  \<open>GetDistributionData\<close>: \<open>None\<close> is the result \<open>false\<close>, otherwise the three values written
  through the pointers.
\<close>

definition GetDistributionData :: "leveldb \<Rightarrow> int \<Rightarrow> fault + (nat \<times> int \<times> int) option" where
  "GetDistributionData db dist_id =
     (case db_get db (fmt_int dist_id) of
        None \<Rightarrow> Inr None
      | Some strValue \<Rightarrow>
          (let vFeeHistoryDetail = split_compress (is_any_of '':'') strValue
           in if 4 \<noteq> length vFeeHistoryDetail then Inr None
              else
                (case lexical_cast_int (vFeeHistoryDetail ! 0) of
                   None \<Rightarrow> Inl bad_lexical_cast
                 | Some block \<Rightarrow>
                     (case lexical_cast_uint32 (vFeeHistoryDetail ! 1) of
                        None \<Rightarrow> Inl bad_lexical_cast
                      | Some propertyId \<Rightarrow>
                          (case lexical_cast_int64 (vFeeHistoryDetail ! 2) of
                             None \<Rightarrow> Inl bad_lexical_cast
                           | Some total_amount \<Rightarrow> Inr (Some (propertyId, block, total_amount)))))))"

fun GetFeeDistribution_loop :: "string list \<Rightarrow> feeHistoryItem list \<Rightarrow> fault + feeHistoryItem list" where
  "GetFeeDistribution_loop [] sFeeHistoryItems = Inr sFeeHistoryItems"
| "GetFeeDistribution_loop (it # rest) sFeeHistoryItems =
     (let vFeeHistoryItem = split_compress (is_any_of ''='') it
      in if 2 \<noteq> length vFeeHistoryItem then GetFeeDistribution_loop rest sFeeHistoryItems
         else
           (case lexical_cast_int64 (vFeeHistoryItem ! 1) of
              None \<Rightarrow> Inl bad_lexical_cast
            | Some feeHistoryItemAmount \<Rightarrow>
                GetFeeDistribution_loop rest
                  (set_insert (vFeeHistoryItem ! 0, feeHistoryItemAmount) sFeeHistoryItems)))"

definition GetFeeDistribution :: "leveldb \<Rightarrow> int \<Rightarrow> fault + feeHistoryItem list" where
  "GetFeeDistribution db dist_id =
     (case db_get db (fmt_int dist_id) of
        None \<Rightarrow> Inr []
      | Some strValue \<Rightarrow>
          (let vFeeHistoryDetail = split_compress (is_any_of '':'') strValue
           in if 4 \<noteq> length vFeeHistoryDetail then Inr []
              else GetFeeDistribution_loop
                     (split_compress (is_any_of '','') (vFeeHistoryDetail ! 3)) []))"

text \<open>
  \<open>RollBackHistory\<close>: the iterator walks the records the table had when the scan began;
  a record that does not split into four fields is skipped.
\<close>

fun RollBackHistory_scan :: "int \<Rightarrow> (string \<times> string) list \<Rightarrow> leveldb \<Rightarrow> fault + leveldb" where
  "RollBackHistory_scan block [] db = Inr db"
| "RollBackHistory_scan block ((strKey, strValue) # rest) db =
     (let vFeeHistoryDetail = split_compress (is_any_of '':'') strValue
      in if 4 \<noteq> length vFeeHistoryDetail then RollBackHistory_scan block rest db
         else
           (case lexical_cast_int (vFeeHistoryDetail ! 0) of
              None \<Rightarrow> Inl bad_lexical_cast
            | Some feeBlock \<Rightarrow>
                if feeBlock \<ge> block then RollBackHistory_scan block rest (db_delete strKey db)
                else RollBackHistory_scan block rest db))"

definition RollBackHistory :: "leveldb \<Rightarrow> int \<Rightarrow> fault + leveldb" where
  "RollBackHistory db block = RollBackHistory_scan block db db"

subsection \<open>Distribution, accrual and rollback of the cache\<close>

text \<open>
  The loop of \<open>DistributeCache\<close> over the receivers, given in the order it visits them:
  the running total, the credit (asserted to succeed, \<open>None\<close> when it does not) and the
  recipient added to the history items.
\<close>

fun credit_receivers ::
    "env \<Rightarrow> nat \<Rightarrow> (int \<times> string) list \<Rightarrow> tally_map \<times> int \<times> feeHistoryItem list
      \<Rightarrow> (tally_map \<times> int \<times> feeHistoryItem list) option" where
  "credit_receivers env propertyId [] acc = Some acc"
| "credit_receivers env propertyId ((will_really_receive, address) # rest) (t, sent_so_far, historyItems) =
     (case update_tally_map env t address propertyId will_really_receive of
        None \<Rightarrow> None
      | Some t' \<Rightarrow>
          credit_receivers env propertyId rest
            (t', int64_wrap (sent_so_far + will_really_receive),
             set_insert (address, will_really_receive) historyItems))"

definition DistributeCache :: "env \<Rightarrow> state \<Rightarrow> nat \<Rightarrow> int \<Rightarrow> fault + state" where
  "DistributeCache env st propertyId block =
     (case GetCachedAmount (feecache st) propertyId of
        Inl e \<Rightarrow> Inl e
      | Inr cachedAmount \<Rightarrow>
          (let receiversSet =
                 STO_GetReceivers env (mp_tally_map st) ''FEEDISTRIBUTION''
                   (if isTestEcosystemProperty env propertyId then EXODUS_PROPERTY_TEXODUS env
                    else EXODUS_PROPERTY_EXODUS env)
                   cachedAmount
           in case credit_receivers env propertyId (rev receiversSet) (mp_tally_map st, 0, []) of
                None \<Rightarrow> Inl assertion_failed
              | Some (t, sent_so_far, historyItems) \<Rightarrow>
                  (let st1 = st\<lparr>mp_tally_map := t,
                                 feehistory :=
                                   RecordFeeDistribution (feehistory st) propertyId block
                                     sent_so_far historyItems\<rparr>
                   in if sent_so_far \<noteq> cachedAmount then Inl assertion_failed
                      else
                        (case ClearCache env (feecache st1) propertyId block of
                           Inl e \<Rightarrow> Inl e
                         | Inr db \<Rightarrow> Inr (st1\<lparr>feecache := db\<rparr>)))))"

definition EvalCache :: "env \<Rightarrow> state \<Rightarrow> nat \<Rightarrow> int \<Rightarrow> fault + state" where
  "EvalCache env st propertyId block =
     (case GetCachedAmount (feecache st) propertyId of
        Inl e \<Rightarrow> Inl e
      | Inr cachedAmount \<Rightarrow>
          (let (threshold, st1) = thresholds_at st propertyId
           in if cachedAmount \<ge> threshold then DistributeCache env st1 propertyId block
              else Inr st1))"

text \<open>
  The report of \<open>AddFee\<close> on an overflow:
  \<open>strprintf("Shutting down due to fee cache overflow (block %d property %d current %d amount %d)\n", ...)\<close>
\<close>

definition overflow_msg :: "int \<Rightarrow> nat \<Rightarrow> int \<Rightarrow> int \<Rightarrow> string" where
  "overflow_msg block propertyId currentCachedAmount amount =
     ''Shutting down due to fee cache overflow (block '' @ fmt_int block
       @ '' property '' @ fmt_int (int propertyId)
       @ '' current '' @ fmt_int currentCachedAmount
       @ '' amount '' @ fmt_int amount @ '')'' @ [CHR 0x0A]"

text \<open>
  The part of \<open>AddFee\<close> after the overflow check: the new amount (the C++ addition, which
  wraps around when the check was overridden), the rewritten record, pruning, evaluation.
\<close>

definition AddFee_write :: "env \<Rightarrow> state \<Rightarrow> nat \<Rightarrow> int \<Rightarrow> int \<Rightarrow> int \<Rightarrow> fault + state" where
  "AddFee_write env st propertyId block currentCachedAmount amount =
     (let newCachedAmount = int64_wrap (currentCachedAmount + amount)
      in case GetCacheHistory (feecache st) propertyId of
           Inl e \<Rightarrow> Inl e
         | Inr sCacheHistoryItems \<Rightarrow>
             (case PruneCache env
                     (db_put (fmt_010d propertyId)
                        (rewrite_with sCacheHistoryItems block newCachedAmount) (feecache st))
                     propertyId block of
                Inl e \<Rightarrow> Inl e
              | Inr db \<Rightarrow> EvalCache env (st\<lparr>feecache := db\<rparr>) propertyId block))"

definition AddFee :: "env \<Rightarrow> state \<Rightarrow> nat \<Rightarrow> int \<Rightarrow> int \<Rightarrow> fault + state" where
  "AddFee env st propertyId block amount =
     (case GetCachedAmount (feecache st) propertyId of
        Inl e \<Rightarrow> Inl e
      | Inr currentCachedAmount \<Rightarrow>
          if currentCachedAmount > 0 \<and> amount > INT64_MAX - currentCachedAmount then
            (let msg = overflow_msg block propertyId currentCachedAmount amount;
                 st1 = st\<lparr>fatal_log := fatal_log st @ [msg]\<rparr>
             in if \<not> overrideforcedshutdown env
                then AbortNode msg (st1\<lparr>MP_persist := False\<rparr>)
                else AddFee_write env st1 propertyId block currentCachedAmount amount)
          else AddFee_write env st propertyId block currentCachedAmount amount)"

text \<open>
  \<open>RollBackCache\<close>: the inner loop over the property ids of one ecosystem, and the two
  ecosystems one after the other.
\<close>

fun RollBackCache_loop :: "int \<Rightarrow> nat list \<Rightarrow> leveldb \<Rightarrow> fault + leveldb" where
  "RollBackCache_loop block [] db = Inr db"
| "RollBackCache_loop block (propertyId # rest) db =
     (case GetCacheHistory db propertyId of
        Inl e \<Rightarrow> Inl e
      | Inr sCacheHistoryItems \<Rightarrow>
          if sCacheHistoryItems \<noteq> [] then
            (if fst (last sCacheHistoryItems) < block then RollBackCache_loop block rest db
             else RollBackCache_loop block rest
                    (db_put (fmt_010d propertyId)
                       (readd_entries (\<lambda>tempItem. fst tempItem \<ge> block) sCacheHistoryItems [])
                       db))
          else RollBackCache_loop block rest db)"

definition ecosystem_properties :: "env \<Rightarrow> nat \<Rightarrow> nat list" where
  "ecosystem_properties env ecosystem =
     [(if ecosystem = 1 then 1 else TEST_ECO_PROPERTY_1 env) ..< peekNextSPID env ecosystem]"

definition RollBackCache :: "env \<Rightarrow> leveldb \<Rightarrow> int \<Rightarrow> fault + leveldb" where
  "RollBackCache env db block =
     RollBackCache_loop block (ecosystem_properties env 1 @ ecosystem_properties env 2) db"

subsection \<open>Notions used to state the properties\<close>

text \<open>Tokens joined by a delimiter, with no delimiter after the last one.\<close>

fun join_with :: "char \<Rightarrow> string list \<Rightarrow> string" where
  "join_with d [] = []"
| "join_with d [t] = t"
| "join_with d (t # u # us) = t @ d # join_with d (u # us)"

text \<open>Every block of a list of cache items is an \<open>int\<close> and every amount an \<open>int64_t\<close>.\<close>

definition cache_items_ok :: "feeCacheItem list \<Rightarrow> bool" where
  "cache_items_ok items \<longleftrightarrow> list_all (\<lambda>item. int32_range (fst item) \<and> int64_range (snd item)) items"

text \<open>
  The set of cache items with the entries of a block replaced by one entry, as the
  rewriting of \<open>ClearCache\<close> and \<open>AddFee\<close> leaves it.
\<close>

definition replace_entry :: "feeCacheItem list \<Rightarrow> int \<Rightarrow> int \<Rightarrow> feeCacheItem list" where
  "replace_entry items block amount =
     set_insert (block, amount) (filter (\<lambda>item. fst item \<noteq> block) items)"

text \<open>
  The entries that the loop of \<open>PruneCache\<close> leaves for a cut-off block, the most recent
  one when none was left.
\<close>

definition prune_kept :: "bool \<Rightarrow> int \<Rightarrow> feeCacheItem list \<Rightarrow> feeCacheItem list" where
  "prune_kept debug pruneBlock items =
     (if items = [] \<or> fst (hd items) \<ge> pruneBlock then items
      else
        (let kept = filter (\<lambda>item. \<not> (fst item < pruneBlock \<and> debug)) items
         in if kept = [] then [last items] else kept))"

text \<open>
  The block height stored in a fee history record: the first of its four fields, when the
  record has four fields and the first is a number.
\<close>

definition stored_block :: "string \<Rightarrow> int option" where
  "stored_block strValue =
     (let vFeeHistoryDetail = split_compress (is_any_of '':'') strValue
      in if length vFeeHistoryDetail = 4 then lexical_cast_int (vFeeHistoryDetail ! 0) else None)"

text \<open>A fee history record that makes a scan throw: four fields, the first not a number.\<close>

definition record_throws :: "string \<Rightarrow> bool" where
  "record_throws strValue \<longleftrightarrow>
     length (split_compress (is_any_of '':'') strValue) = 4 \<and> stored_block strValue = None"

text \<open>The records that \<open>RollBackHistory\<close> is to delete: a stored block at or after the rollback block.\<close>

definition rolled_back :: "int \<Rightarrow> string \<Rightarrow> bool" where
  "rolled_back block strValue \<longleftrightarrow> (case stored_block strValue of None \<Rightarrow> False | Some b \<Rightarrow> b \<ge> block)"

text \<open>One recipient as the fee history record lists it (without the comma that follows).\<close>

definition recipient_entry :: "feeHistoryItem \<Rightarrow> string" where
  "recipient_entry r = fst r @ CHR ''='' # fmt_int (snd r)"

text \<open>An address that contains none of the three delimiters of a fee history record.\<close>

definition plain_address :: "string \<Rightarrow> bool" where
  "plain_address a \<longleftrightarrow> CHR '':'' \<notin> set a \<and> CHR '','' \<notin> set a \<and> CHR ''='' \<notin> set a"

text \<open>The property ids that \<open>RollBackCache\<close> visits: those of the two ecosystems.\<close>

definition known_properties :: "env \<Rightarrow> nat list" where
  "known_properties env = ecosystem_properties env 1 @ ecosystem_properties env 2"

text \<open>The ledger after the credits of a list of receivers for a property.\<close>

definition credited :: "nat \<Rightarrow> (int \<times> string) list \<Rightarrow> tally_map \<Rightarrow> tally_map" where
  "credited propertyId receivers t =
     foldl (\<lambda>t r. t((snd r, propertyId) := t (snd r, propertyId) + fst r)) t receivers"

text \<open>What a list of receivers is credited to one address in total.\<close>

definition share_of :: "(int \<times> string) list \<Rightarrow> string \<Rightarrow> int" where
  "share_of receivers address = sum_list (map fst (filter (\<lambda>r. snd r = address) receivers))"

text \<open>The recipients of a distribution, as the set of (address, amount) pairs.\<close>

definition recipients_of :: "(int \<times> string) list \<Rightarrow> feeHistoryItem list" where
  "recipients_of receivers = sorted_list_of_set ((\<lambda>r. (snd r, fst r)) ` set receivers)"

text \<open>A sequence of \<open>AddFee\<close> calls for one property, each a (block, amount) pair; it ends at the first fault.\<close>

fun AddFee_calls :: "env \<Rightarrow> state \<Rightarrow> nat \<Rightarrow> (int \<times> int) list \<Rightarrow> fault + state" where
  "AddFee_calls env st propertyId [] = Inr st"
| "AddFee_calls env st propertyId ((block, amount) # calls) =
     (case AddFee env st propertyId block amount of
        Inl e \<Rightarrow> Inl e
      | Inr st' \<Rightarrow> AddFee_calls env st' propertyId calls)"

text \<open>
  The running total of a sequence of \<open>AddFee\<close> calls at a block: the amount cached before
  plus the amounts of the calls at or before that block.
\<close>

definition running_total :: "int \<Rightarrow> (int \<times> int) list \<Rightarrow> int \<Rightarrow> int" where
  "running_total current calls block =
     current + sum_list (map snd (filter (\<lambda>c. fst c \<le> block) calls))"

text \<open>The fee cache table of the state a call returned, if it returned.\<close>

definition returned_cache :: "fault + state \<Rightarrow> leveldb option" where
  "returned_cache r = (case r of Inl e \<Rightarrow> None | Inr st \<Rightarrow> Some (feecache st))"

subsection \<open>A concrete node\<close>

text \<open>
  An environment and a state to run the functions on: a retention window of 50 blocks, a
  threshold divisor of 100000, properties 1 to 4 in the main and 10 and 11 in the test
  ecosystem, a snapshot that splits the amount between two holders, and a ledger that
  accepts every positive credit.
\<close>

definition example_env :: env where
  "example_env =
     \<lparr>MAX_STATE_HISTORY = 50, EXODUS_FEE_THRESHOLD = 100000, TEST_ECO_PROPERTY_1 = 10,
      EXODUS_PROPERTY_EXODUS = 1, EXODUS_PROPERTY_TEXODUS = 2,
      exodus_debug_fees = False, overrideforcedshutdown = False,
      getTotalTokens = (\<lambda>p. 10000000),
      peekNextSPID = (\<lambda>ecosystem. if ecosystem = 1 then 5 else 12),
      isTestEcosystemProperty = (\<lambda>p. p = 2 \<or> p \<ge> 10),
      STO_GetReceivers = (\<lambda>t tag p amount. [(amount div 2, ''addrA''), (amount - amount div 2, ''addrB'')]),
      tally_accepts = (\<lambda>t address p amount. amount > 0)\<rparr>"

definition example_state :: state where
  "example_state =
     \<lparr>feecache = [], feehistory = [], distributionThresholds = Map.empty,
      mp_tally_map = (\<lambda>_. 0), MP_persist = True, fatal_log = []\<rparr>"

text \<open>A fee cache table holding one record, for property 3, with two entries.\<close>

definition example_cache :: leveldb where
  "example_cache = [(''0000000003'', ''100:5,200:7'')]"

text \<open>A fee history table with three records, two of them well formed.\<close>

definition example_history :: leveldb where
  "example_history =
     [(''1'', ''100:3:50:addrA=20,addrB=30''), (''2'', ''500:3:70:''), (''3'', ''bad'')]"

text \<open>The example node with the debug switch on.\<close>

definition example_env_debug :: env where
  "example_env_debug = example_env\<lparr>exodus_debug_fees := True\<rparr>"

text \<open>The example state with the fee cache table of the example.\<close>

definition example_state_cached :: state where
  "example_state_cached = example_state\<lparr>feecache := example_cache\<rparr>"

text \<open>A state whose cached amount for property 3 is the greatest \<open>int64_t\<close>.\<close>

definition example_state_full :: state where
  "example_state_full = example_state\<lparr>feecache := [(''0000000003'', ''100:9223372036854775807'')]\<rparr>"

text \<open>The example state once the threshold of property 3 has been computed (it is 100).\<close>

definition example_state_threshold :: state where
  "example_state_threshold = UpdateDistributionThresholds example_env example_state 3"

section \<open>Auxiliary facts\<close>

subsection \<open>Integers and decimal text\<close>

lemma int32_wrap_id: "int32_range x \<Longrightarrow> int32_wrap x = x"
  by (simp add: int32_range_def int32_wrap_def)

lemma int64_wrap_id: "int64_range x \<Longrightarrow> int64_wrap x = x"
  by (simp add: int64_range_def int64_wrap_def)

lemma int32_wrap_range: "int32_range (int32_wrap x)"
proof -
  have "0 \<le> (x + 2 ^ 31) mod 2 ^ 32" "(x + 2 ^ 31) mod 2 ^ 32 < (2 ^ 32 :: int)"
    by simp_all
  then show ?thesis
    by (simp add: int32_range_def int32_wrap_def)
qed

lemma int64_wrap_range: "int64_range (int64_wrap x)"
proof -
  have "0 \<le> (x + 2 ^ 63) mod 2 ^ 64" "(x + 2 ^ 63) mod 2 ^ 64 < (2 ^ 64 :: int)"
    by simp_all
  then show ?thesis
    by (simp add: int64_range_def int64_wrap_def)
qed

lemma int64_wrap_add_left: "int64_wrap (int64_wrap a + b) = int64_wrap (a + b)"
proof -
  have "((a + 2 ^ 63) mod 2 ^ 64 - 2 ^ 63 + b + 2 ^ 63) mod 2 ^ 64 = (a + b + 2 ^ 63) mod (2 ^ 64 :: int)"
  proof -
    have "((a + 2 ^ 63) mod 2 ^ 64 - 2 ^ 63 + b + 2 ^ 63) = (a + 2 ^ 63) mod 2 ^ 64 + b"
      by simp
    moreover have "((a + 2 ^ 63) mod 2 ^ 64 + b) mod 2 ^ 64 = (a + 2 ^ 63 + b) mod (2 ^ 64 :: int)"
      by (rule mod_add_left_eq)
    ultimately show ?thesis by (simp add: ac_simps)
  qed
  then show ?thesis
    by (simp add: int64_wrap_def)
qed

lemma of_char_digit_char: "0 \<le> d \<Longrightarrow> d < 10 \<Longrightarrow> (of_char (digit_char d) :: int) = 48 + d"
  by (simp add: digit_char_def)

lemma is_digit_digit_char: "0 \<le> d \<Longrightarrow> d < 10 \<Longrightarrow> is_digit (digit_char d)"
  by (simp add: is_digit_def of_char_digit_char)

lemma digit_val_digit_char: "0 \<le> d \<Longrightarrow> d < 10 \<Longrightarrow> digit_val (digit_char d) = d"
  by (simp add: digit_val_def of_char_digit_char)

lemma fmt_digits_ne: "fmt_digits n \<noteq> []"
  by (subst fmt_digits.simps) simp

lemma fmt_digits_all_digit: "0 \<le> n \<Longrightarrow> list_all is_digit (fmt_digits n)"
proof (induction n rule: fmt_digits.induct)
  case (1 n)
  show ?case
  proof (cases "n < 10")
    case True
    with "1.prems" show ?thesis
      by (subst fmt_digits.simps) (simp add: is_digit_digit_char)
  next
    case False
    then have "0 \<le> n div 10" by simp
    with False "1.IH" have "list_all is_digit (fmt_digits (n div 10))" by simp
    moreover have "is_digit (digit_char (n mod 10))"
      by (rule is_digit_digit_char) simp_all
    ultimately show ?thesis
      using False by (subst fmt_digits.simps) simp
  qed
qed

lemma fmt_digits_value:
  "0 \<le> n \<Longrightarrow> foldl (\<lambda>acc c. 10 * acc + digit_val c) 0 (fmt_digits n) = n"
proof (induction n rule: fmt_digits.induct)
  case (1 n)
  show ?case
  proof (cases "n < 10")
    case True
    with "1.prems" show ?thesis
      by (subst fmt_digits.simps) (simp add: digit_val_digit_char)
  next
    case False
    then have "0 \<le> n div 10" by simp
    with False "1.IH" have "foldl (\<lambda>acc c. 10 * acc + digit_val c) 0 (fmt_digits (n div 10)) = n div 10"
      by simp
    moreover have "digit_val (digit_char (n mod 10)) = n mod 10"
      by (rule digit_val_digit_char) simp_all
    ultimately show ?thesis
      using False by (subst fmt_digits.simps) simp
  qed
qed

lemma lcast_digits_fmt: "0 \<le> n \<Longrightarrow> lcast_digits (fmt_digits n) = Some n"
  by (simp add: lcast_digits_def fmt_digits_ne fmt_digits_all_digit fmt_digits_value)

lemma is_digit_not_sign: "is_digit c \<Longrightarrow> c \<noteq> CHR ''-'' \<and> c \<noteq> CHR ''+''"
  by (auto simp: is_digit_def)

lemma fmt_digits_hd: "0 \<le> n \<Longrightarrow> \<exists>c cs. fmt_digits n = c # cs \<and> is_digit c"
  using fmt_digits_all_digit [of n] fmt_digits_ne [of n]
  by (cases "fmt_digits n") auto

lemma lexical_cast_signed_fmt:
  assumes "- (2 ^ (bits - 1)) \<le> i" and "i < 2 ^ (bits - 1)"
  shows "lexical_cast_signed bits (fmt_int i) = Some i"
proof (cases "i < 0")
  case True
  then have "lcast_digits (fmt_digits (- i)) = Some (- i)"
    by (simp add: lcast_digits_fmt)
  with True assms show ?thesis
    by (simp add: lexical_cast_signed_def fmt_int_def)
next
  case False
  then have nn: "0 \<le> i" by simp
  then obtain c cs where c: "fmt_digits i = c # cs" "is_digit c"
    using fmt_digits_hd by blast
  have "lcast_digits (c # cs) = Some i"
    using lcast_digits_fmt [OF nn] c by simp
  with False assms c is_digit_not_sign [of c] show ?thesis
    by (simp add: lexical_cast_signed_def fmt_int_def)
qed

lemma lexical_cast_int_fmt: "int32_range i \<Longrightarrow> lexical_cast_int (fmt_int i) = Some i"
  by (rule lexical_cast_signed_fmt) (simp_all add: int32_range_def)

lemma lexical_cast_int64_fmt: "int64_range i \<Longrightarrow> lexical_cast_int64 (fmt_int i) = Some i"
  by (rule lexical_cast_signed_fmt) (simp_all add: int64_range_def)

lemma lexical_cast_int64_fmt32: "int32_range i \<Longrightarrow> lexical_cast_int64 (fmt_int i) = Some i"
  by (rule lexical_cast_signed_fmt) (simp_all add: int32_range_def)

lemma lexical_cast_uint32_fmt:
  assumes "n < 2 ^ 32"
  shows "lexical_cast_uint32 (fmt_int (int n)) = Some n"
proof -
  have nn: "0 \<le> int n" by simp
  then obtain c cs where c: "fmt_digits (int n) = c # cs" "is_digit c"
    using fmt_digits_hd by blast
  have "lcast_digits (c # cs) = Some (int n)"
    using lcast_digits_fmt [OF nn] c by simp
  moreover have "int n \<le> 2 ^ 32 - 1"
    using assms by (simp add: int_ops) 
  ultimately show ?thesis
    using c is_digit_not_sign [of c]
    by (simp add: lexical_cast_unsigned_def fmt_int_def)
qed

lemma fmt_digits_chars: "0 \<le> n \<Longrightarrow> c \<in> set (fmt_digits n) \<Longrightarrow> is_digit c"
  using fmt_digits_all_digit [of n] by (simp add: list_all_iff)

lemma fmt_int_chars: "c \<in> set (fmt_int i) \<Longrightarrow> is_digit c \<or> c = CHR ''-''"
proof (cases "i < 0")
  case True
  assume "c \<in> set (fmt_int i)"
  with True have "c = CHR ''-'' \<or> c \<in> set (fmt_digits (- i))"
    by (simp add: fmt_int_def)
  with True show ?thesis
    using fmt_digits_chars [of "- i" c] by auto
next
  case False
  assume "c \<in> set (fmt_int i)"
  with False have "c \<in> set (fmt_digits i)"
    by (simp add: fmt_int_def)
  with False show ?thesis
    using fmt_digits_chars [of i c] by auto
qed

lemma fmt_int_ne: "fmt_int i \<noteq> []"
  by (simp add: fmt_int_def fmt_digits_ne)

lemma fmt_int_no_comma: "CHR '','' \<notin> set (fmt_int i)"
  using fmt_int_chars [of "CHR '',''" i] by (auto simp: is_digit_def)

lemma fmt_int_no_colon: "CHR '':'' \<notin> set (fmt_int i)"
  using fmt_int_chars [of "CHR '':''" i] by (auto simp: is_digit_def)

lemma fmt_int_no_equals: "CHR ''='' \<notin> set (fmt_int i)"
  using fmt_int_chars [of "CHR ''=''" i] by (auto simp: is_digit_def)

lemma digits_value_zeros:
  "foldl (\<lambda>acc c. 10 * acc + digit_val c) 0 (replicate k CHR ''0'' @ s)
     = foldl (\<lambda>acc c. 10 * acc + digit_val c) 0 s"
  by (induction k) (simp_all add: digit_val_def)

lemma fmt_010d_value:
  "foldl (\<lambda>acc c. 10 * acc + digit_val c) 0 (fmt_010d n) = int n"
  by (simp only: fmt_010d_def digits_value_zeros) (simp add: fmt_int_def fmt_digits_value)

lemma fmt_010d_inj: "fmt_010d a = fmt_010d b \<longleftrightarrow> a = b"
proof
  assume eq: "fmt_010d a = fmt_010d b"
  have "int a = foldl (\<lambda>acc c. 10 * acc + digit_val c) 0 (fmt_010d a)"
    by (simp only: fmt_010d_value)
  also have "\<dots> = foldl (\<lambda>acc c. 10 * acc + digit_val c) 0 (fmt_010d b)"
    by (simp only: eq)
  also have "\<dots> = int b"
    by (simp only: fmt_010d_value)
  finally show "a = b" by simp
qed simp

subsection \<open>Splitting\<close>

lemma split_compress_no_delim:
  assumes "\<forall>c\<in>set t. \<not> P c"
  shows "split_compress P t = [t]"
proof -
  have "takeWhile (\<lambda>c. \<not> P c) t = t" "dropWhile (\<lambda>c. \<not> P c) t = []"
    using assms by simp_all
  then show ?thesis
    by (subst split_compress.simps) simp
qed

lemma split_compress_at_delim:
  assumes "\<forall>c\<in>set t. \<not> P c" and "P d"
  shows "split_compress P (t @ d # rest) = t # split_compress P (dropWhile P rest)"
proof -
  have "takeWhile (\<lambda>c. \<not> P c) (t @ d # rest) = t"
    using assms by (simp add: takeWhile_append2)
  moreover have "dropWhile (\<lambda>c. \<not> P c) (t @ d # rest) = d # rest"
    using assms by (simp add: dropWhile_append2)
  ultimately show ?thesis
    using assms(2) by (subst split_compress.simps) simp
qed

lemma dropWhile_hd_id: "xs = [] \<or> \<not> P (hd xs) \<Longrightarrow> dropWhile P xs = xs"
  by (cases xs) auto

lemma hd_join_with: "t \<noteq> [] \<Longrightarrow> hd (join_with d (t # us)) = hd t"
  by (cases us) simp_all

lemma join_with_Cons_ne: "t \<noteq> [] \<Longrightarrow> join_with d (t # us) \<noteq> []"
  by (cases us) simp_all

lemma split_compress_join:
  assumes "ts \<noteq> []" and "\<forall>t\<in>set ts. \<forall>c\<in>set t. \<not> P c" and "P d"
    and "\<forall>t\<in>set (butlast (tl ts)). t \<noteq> []"
  shows "split_compress P (join_with d ts) = ts"
  using assms
proof (induction d ts rule: join_with.induct)
  case (1 d)
  then show ?case by simp
next
  case (2 d t)
  then show ?case by (simp add: split_compress_no_delim)
next
  case (3 d t u us)
  have nodelim_u: "\<forall>c\<in>set u. \<not> P c"
    using "3.prems" by simp
  have keep: "dropWhile P (join_with d (u # us)) = join_with d (u # us)"
  proof (cases us)
    case Nil
    then show ?thesis
      using nodelim_u by (intro dropWhile_hd_id) (cases u, auto)
  next
    case (Cons v vs)
    then have "u \<noteq> []"
      using "3.prems"(4) by simp
    then have "hd (join_with d (u # us)) = hd u" "hd u \<in> set u"
      by (simp_all add: hd_join_with)
    then show ?thesis
      using nodelim_u by (intro dropWhile_hd_id) simp
  qed
  have "\<forall>t\<in>set (butlast (tl (u # us))). t \<noteq> []"
    using "3.prems"(4) by (cases us) auto
  then have IH: "split_compress P (join_with d (u # us)) = u # us"
    using "3.IH" "3.prems" by simp
  have "split_compress P (t @ d # join_with d (u # us))
          = t # split_compress P (dropWhile P (join_with d (u # us)))"
    using "3.prems" by (intro split_compress_at_delim) simp_all
  then show ?case
    by (simp add: keep IH)
qed

subsection \<open>Sets as ascending lists\<close>

lemma set_set_insert: "set (set_insert x xs) = insert x (set xs)"
  by (auto simp: set_insert_def set_insort_key)

lemma sorted_set_insert: "sorted xs \<Longrightarrow> sorted (set_insert x xs)"
  by (simp add: set_insert_def sorted_insort)

lemma distinct_set_insert: "distinct xs \<Longrightarrow> distinct (set_insert x xs)"
  by (simp add: set_insert_def distinct_insort)

lemma sorted_distinct_eq_sorted_list_of_set:
  "sorted xs \<Longrightarrow> distinct xs \<Longrightarrow> xs = sorted_list_of_set (set xs)"
  by (simp add: sorted_list_of_set.idem_if_sorted_distinct)

lemma foldl_set_insert:
  "sorted acc \<Longrightarrow> distinct acc \<Longrightarrow>
     foldl (\<lambda>s x. set_insert x s) acc xs = sorted_list_of_set (set acc \<union> set xs)"
proof (induction xs arbitrary: acc)
  case Nil
  then show ?case
    by (simp add: sorted_list_of_set.idem_if_sorted_distinct)
next
  case (Cons x xs)
  have "foldl (\<lambda>s x. set_insert x s) (set_insert x acc) xs
          = sorted_list_of_set (set (set_insert x acc) \<union> set xs)"
    using Cons.prems by (intro Cons.IH sorted_set_insert distinct_set_insert)
  then show ?case
    by (simp add: set_set_insert)
qed

subsection \<open>Tables\<close>

lemma db_get_put: "db_get (db_put k v db) k' = (if k' = k then Some v else db_get db k')"
  by (induction db) (auto simp: db_get_def)

lemma db_get_delete: "db_get (db_delete k db) k' = (if k' = k then None else db_get db k')"
  by (induction db) (auto simp: db_get_def db_delete_def)

subsection \<open>Writing and reading a cache history\<close>

lemma join_with_Cons: "ts \<noteq> [] \<Longrightarrow> join_with d (t # ts) = t @ d # join_with d ts"
  by (cases ts) simp_all

lemma join_with_snoc: "ts \<noteq> [] \<Longrightarrow> join_with d (ts @ [t]) = join_with d ts @ d # t"
  by (induction d ts rule: join_with.induct) simp_all

lemma fmt_cache_item_ne: "fmt_cache_item item \<noteq> []"
  by (simp add: fmt_cache_item_def fmt_int_ne)

lemma fmt_cache_item_no_comma: "\<not> is_any_of '','' c" if "c \<in> set (fmt_cache_item item)"
  using that fmt_int_no_comma [of "fst item"] fmt_int_no_comma [of "snd item"]
  by (auto simp: fmt_cache_item_def is_any_of_def)

lemma readd_entries_join:
  "readd_entries skip items acc =
     (let ts = map fmt_cache_item (filter (\<lambda>i. \<not> skip i) items)
      in if ts = [] then acc
         else if acc = [] then join_with CHR '','' ts
         else acc @ CHR '','' # join_with CHR '','' ts)"
proof (induction items arbitrary: acc)
  case Nil
  then show ?case by simp
next
  case (Cons x xs)
  show ?case
  proof (cases "skip x")
    case True
    then show ?thesis
      using Cons.IH [of acc] by simp
  next
    case False
    let ?acc' = "(if acc \<noteq> [] then acc @ '','' else acc) @ fmt_cache_item x"
    let ?rest = "map fmt_cache_item (filter (\<lambda>i. \<not> skip i) xs)"
    have ne: "?acc' \<noteq> []"
      by (simp add: fmt_cache_item_ne)
    have step: "readd_entries skip (x # xs) acc = readd_entries skip xs ?acc'"
      using False by simp
    show ?thesis
    proof (cases "?rest = []")
      case True
      then show ?thesis
        using False Cons.IH [of ?acc'] step by (simp add: Let_def)
    next
      case rest: False
      have "readd_entries skip xs ?acc' = ?acc' @ CHR '','' # join_with CHR '','' ?rest"
        using Cons.IH [of ?acc'] rest ne by (simp add: Let_def)
      moreover have "join_with CHR '','' (fmt_cache_item x # ?rest)
                       = fmt_cache_item x @ CHR '','' # join_with CHR '','' ?rest"
        using rest by (rule join_with_Cons)
      ultimately show ?thesis
        using False rest step by (simp add: Let_def)
    qed
  qed
qed

lemma readd_entries_Nil:
  "readd_entries skip items [] = join_with CHR '','' (map fmt_cache_item (filter (\<lambda>i. \<not> skip i) items))"
  by (simp add: readd_entries_join Let_def)

lemma join_with_eq_Nil: "join_with d (map fmt_cache_item xs) = [] \<longleftrightarrow> xs = []"
proof (cases xs)
  case (Cons x ys)
  then show ?thesis
    using join_with_Cons_ne [of "fmt_cache_item x" d "map fmt_cache_item ys"]
    by (simp add: fmt_cache_item_ne)
qed simp

lemma rewrite_with_join:
  "rewrite_with items block amount =
     join_with CHR '','' (map fmt_cache_item (filter (\<lambda>i. fst i \<noteq> block) items @ [(block, amount)]))"
proof (cases "filter (\<lambda>i. fst i \<noteq> block) items = []")
  case True
  then have "readd_entries (\<lambda>i. fst i = block) items [] = []"
    by (simp add: readd_entries_Nil)
  with True show ?thesis
    by (simp add: rewrite_with_def Let_def)
next
  case False
  then have items: "items \<noteq> []" by auto
  let ?ts = "map fmt_cache_item (filter (\<lambda>i. fst i \<noteq> block) items)"
  have r: "readd_entries (\<lambda>i. fst i = block) items [] = join_with CHR '','' ?ts"
    by (simp add: readd_entries_Nil)
  have ne: "join_with CHR '','' ?ts \<noteq> []"
    using False by (simp add: join_with_eq_Nil)
  have "join_with CHR '','' (?ts @ [fmt_cache_item (block, amount)])
          = join_with CHR '','' ?ts @ CHR '','' # fmt_cache_item (block, amount)"
    using False by (intro join_with_snoc) simp
  then show ?thesis
    using items r ne by (simp add: rewrite_with_def Let_def)
qed

lemma split_fmt_cache_item:
  "split_compress (is_any_of '':'') (fmt_cache_item item) = [fmt_int (fst item), fmt_int (snd item)]"
proof -
  have a: "\<forall>c\<in>set (fmt_int (fst item)). \<not> is_any_of '':'' c"
    using fmt_int_no_colon [of "fst item"] by (auto simp: is_any_of_def)
  have b: "\<forall>c\<in>set (fmt_int (snd item)). \<not> is_any_of '':'' c"
    using fmt_int_no_colon [of "snd item"] by (auto simp: is_any_of_def)
  have "dropWhile (is_any_of '':'') (fmt_int (snd item)) = fmt_int (snd item)"
    using b fmt_int_ne [of "snd item"] by (intro dropWhile_hd_id) simp
  moreover have "split_compress (is_any_of '':'') (fmt_int (fst item) @ CHR '':'' # fmt_int (snd item))
      = fmt_int (fst item) # split_compress (is_any_of '':'') (dropWhile (is_any_of '':'') (fmt_int (snd item)))"
    using a by (intro split_compress_at_delim) (simp_all add: is_any_of_def)
  ultimately show ?thesis
    using b by (simp add: fmt_cache_item_def split_compress_no_delim)
qed

lemma GetCacheHistory_loop_fmt:
  "cache_items_ok xs \<Longrightarrow>
     GetCacheHistory_loop (map fmt_cache_item xs) acc = Inr (foldl (\<lambda>s x. set_insert x s) acc xs)"
proof (induction xs arbitrary: acc)
  case Nil
  then show ?case by simp
next
  case (Cons x xs)
  then have r: "int32_range (fst x)" "int64_range (snd x)" and ok: "cache_items_ok xs"
    by (simp_all add: cache_items_ok_def)
  have "GetCacheHistory_loop (fmt_cache_item x # map fmt_cache_item xs) acc
          = GetCacheHistory_loop (map fmt_cache_item xs) (set_insert x acc)"
    using r by (simp add: split_fmt_cache_item lexical_cast_int64_fmt32 lexical_cast_int64_fmt
        int32_wrap_id)
  then show ?case
    using Cons.IH [OF ok] by simp
qed

lemma split_join_cache_items:
  assumes "xs \<noteq> []"
  shows "split_compress (is_any_of '','') (join_with CHR '','' (map fmt_cache_item xs))
           = map fmt_cache_item xs"
proof (rule split_compress_join)
  show "map fmt_cache_item xs \<noteq> []"
    using assms by simp
  show "\<forall>t\<in>set (map fmt_cache_item xs). \<forall>c\<in>set t. \<not> is_any_of '','' c"
    using fmt_cache_item_no_comma by auto
  show "is_any_of '','' CHR '',''"
    by (simp add: is_any_of_def)
  show "\<forall>t\<in>set (butlast (tl (map fmt_cache_item xs))). t \<noteq> []"
  proof
    fix t
    assume "t \<in> set (butlast (tl (map fmt_cache_item xs)))"
    then have "t \<in> set (tl (map fmt_cache_item xs))"
      by (rule in_set_butlastD)
    then have "t \<in> set (map fmt_cache_item xs)"
      by (cases xs) auto
    then show "t \<noteq> []"
      using fmt_cache_item_ne by auto
  qed
qed

lemma GetCacheHistory_loop_empty_value:
  "GetCacheHistory_loop (split_compress (is_any_of '','') []) [] = Inr []"
  by (simp add: split_compress_no_delim)

lemma parse_written_value:
  assumes "cache_items_ok xs"
  shows "GetCacheHistory_loop
           (split_compress (is_any_of '','') (join_with CHR '','' (map fmt_cache_item xs))) []
         = Inr (sorted_list_of_set (set xs))"
proof (cases "xs = []")
  case True
  then show ?thesis
    by (simp add: GetCacheHistory_loop_empty_value)
next
  case False
  then show ?thesis
    using assms by (simp add: split_join_cache_items GetCacheHistory_loop_fmt foldl_set_insert)
qed

lemma GetCacheHistory_put_same:
  "cache_items_ok xs \<Longrightarrow>
     GetCacheHistory (db_put (fmt_010d p) (join_with CHR '','' (map fmt_cache_item xs)) db) p
       = Inr (sorted_list_of_set (set xs))"
  by (simp add: GetCacheHistory_def db_get_put parse_written_value)

lemma GetCacheHistory_put_other:
  "q \<noteq> p \<Longrightarrow> GetCacheHistory (db_put (fmt_010d p) v db) q = GetCacheHistory db q"
  by (simp add: GetCacheHistory_def db_get_put fmt_010d_inj)

subsection \<open>What a stored history parses to\<close>

lemma foldl_digits_nonneg:
  "list_all is_digit s \<Longrightarrow> 0 \<le> a \<Longrightarrow> 0 \<le> foldl (\<lambda>acc c. 10 * acc + digit_val c) a s"
  by (induction s arbitrary: a) (simp_all add: is_digit_def digit_val_def)

lemma lcast_digits_nonneg: "lcast_digits s = Some v \<Longrightarrow> 0 \<le> v"
  using foldl_digits_nonneg [of s 0] by (auto simp: lcast_digits_def split: if_splits)

lemma lexical_cast_signed_range:
  assumes "lexical_cast_signed bits s = Some v"
  shows "- (2 ^ (bits - 1)) \<le> v \<and> v < 2 ^ (bits - 1)"
proof -
  define M :: int where "M = 2 ^ (bits - 1)"
  have pos: "0 < M" by (simp add: M_def)
  from assms obtain body w where w: "lcast_digits body = Some w"
    and v: "(v = - w \<and> w \<le> M) \<or> (v = w \<and> w \<le> M - 1)"
    unfolding M_def
    by (auto simp: lexical_cast_signed_def Let_def split: list.splits option.splits if_splits)
  from w have "0 \<le> w" by (rule lcast_digits_nonneg)
  with v pos have "- M \<le> v \<and> v < M" by auto
  then show ?thesis by (simp add: M_def)
qed

lemma lexical_cast_int64_range: "lexical_cast_int64 s = Some v \<Longrightarrow> int64_range v"
  using lexical_cast_signed_range [of 64 s v] by (simp add: int64_range_def)

lemma lexical_cast_int_range: "lexical_cast_int s = Some v \<Longrightarrow> int32_range v"
  using lexical_cast_signed_range [of 32 s v] by (simp add: int32_range_def)

lemma cache_items_ok_set_insert:
  "cache_items_ok (set_insert x xs) \<longleftrightarrow> int32_range (fst x) \<and> int64_range (snd x) \<and> cache_items_ok xs"
  by (auto simp: cache_items_ok_def list_all_iff set_set_insert)

lemma GetCacheHistory_loop_wf:
  "GetCacheHistory_loop toks acc = Inr items \<Longrightarrow> sorted acc \<Longrightarrow> distinct acc \<Longrightarrow>
     cache_items_ok acc \<Longrightarrow> sorted items \<and> distinct items \<and> cache_items_ok items"
proof (induction toks arbitrary: acc)
  case Nil
  then show ?case by simp
next
  case (Cons t toks)
  show ?case
  proof (cases "2 \<noteq> length (split_compress (is_any_of '':'') t)")
    case True
    with Cons.prems have "GetCacheHistory_loop toks acc = Inr items"
      by (simp add: Let_def)
    then show ?thesis
      using Cons.IH Cons.prems by blast
  next
    case False
    with Cons.prems(1) obtain b a where
      b: "lexical_cast_int64 (split_compress (is_any_of '':'') t ! 0) = Some b" and
      a: "lexical_cast_int64 (split_compress (is_any_of '':'') t ! 1) = Some a" and
      rest: "GetCacheHistory_loop toks (set_insert (int32_wrap b, a) acc) = Inr items"
      by (auto simp: Let_def split: option.splits)
    have "cache_items_ok (set_insert (int32_wrap b, a) acc)"
      using a Cons.prems(4)
      by (simp add: cache_items_ok_set_insert int32_wrap_range lexical_cast_int64_range)
    then show ?thesis
      using Cons.IH [OF rest] Cons.prems
      by (simp add: sorted_set_insert distinct_set_insert)
  qed
qed

lemma GetCacheHistory_wf:
  assumes "GetCacheHistory db p = Inr items"
  shows "sorted items \<and> distinct items \<and> cache_items_ok items"
proof (cases "db_get db (fmt_010d p)")
  case None
  with assms show ?thesis
    by (simp add: GetCacheHistory_def cache_items_ok_def)
next
  case (Some v)
  with assms have "GetCacheHistory_loop (split_compress (is_any_of '','') v) [] = Inr items"
    by (simp add: GetCacheHistory_def)
  then show ?thesis
    by (rule GetCacheHistory_loop_wf) (simp_all add: cache_items_ok_def)
qed

lemma cache_items_ok_filter: "cache_items_ok xs \<Longrightarrow> cache_items_ok (filter P xs)"
  by (simp add: cache_items_ok_def list_all_iff)

lemma GetCacheHistory_put_sorted:
  assumes "cache_items_ok xs" and "sorted xs" and "distinct xs"
  shows "GetCacheHistory (db_put (fmt_010d p) (join_with CHR '','' (map fmt_cache_item xs)) db) p
           = Inr xs"
  using assms by (simp add: GetCacheHistory_put_same sorted_list_of_set.idem_if_sorted_distinct)

subsection \<open>The most recent entry\<close>

lemma sorted_fst_le_last:
  assumes "sorted (items :: feeCacheItem list)" and "i \<in> set items"
  shows "fst i \<le> fst (last items)"
proof -
  from assms(2) have ne: "items \<noteq> []" by auto
  from assms obtain k where k: "k < length items" "items ! k = i"
    by (auto simp: in_set_conv_nth)
  then have "items ! k \<le> items ! (length items - 1)"
    using assms(1) by (intro sorted_nth_mono) auto
  then have "i \<le> last items"
    using k ne by (simp add: last_conv_nth)
  then show ?thesis
    by (auto simp: less_eq_prod_def)
qed

lemma sorted_fst_hd_le:
  assumes "sorted (items :: feeCacheItem list)" and "i \<in> set items"
  shows "fst (hd items) \<le> fst i"
proof -
  from assms(2) obtain x xs where x: "items = x # xs" by (cases items) auto
  with assms have "x \<le> i" by auto
  with x show ?thesis
    by (auto simp: less_eq_prod_def)
qed

lemma last_filter_keep:
  assumes "P (last xs)" and "xs \<noteq> []"
  shows "last (filter P xs) = last xs"
proof -
  have "filter P xs = filter P (butlast xs @ [last xs])"
    using assms(2) by simp
  also have "\<dots> = filter P (butlast xs) @ [last xs]"
    using assms(1) by simp
  finally show ?thesis by simp
qed

lemma prune_kept_subset: "set (prune_kept debug c items) \<subseteq> set items"
  by (auto simp: prune_kept_def Let_def)

lemma prune_kept_ne: "items \<noteq> [] \<Longrightarrow> prune_kept debug c items \<noteq> []"
  by (auto simp: prune_kept_def Let_def)

lemma prune_kept_last:
  assumes "sorted items" and "items \<noteq> []"
  shows "last (prune_kept debug c items) = last items"
proof (cases "fst (hd items) \<ge> c \<or> filter (\<lambda>item. \<not> (fst item < c \<and> debug)) items = []")
  case True
  then show ?thesis
    by (auto simp: prune_kept_def Let_def)
next
  case False
  then obtain i where i: "i \<in> set items" "\<not> (fst i < c \<and> debug)"
    by (auto simp: filter_empty_conv)
  have "fst i \<le> fst (last items)"
    using assms(1) i(1) by (rule sorted_fst_le_last)
  with i have "\<not> (fst (last items) < c \<and> debug)" by auto
  then have "last (filter (\<lambda>item. \<not> (fst item < c \<and> debug)) items) = last items"
    using assms(2) by (rule last_filter_keep)
  with False show ?thesis
    by (simp add: prune_kept_def Let_def)
qed

lemma prune_kept_keeps:
  "i \<in> set items \<Longrightarrow> c \<le> fst i \<Longrightarrow> i \<in> set (prune_kept debug c items)"
  by (auto simp: prune_kept_def Let_def filter_empty_conv)

lemma prune_kept_sorted: "sorted items \<Longrightarrow> sorted (prune_kept debug c items)"
  by (auto simp: prune_kept_def Let_def sorted_wrt_filter)

lemma prune_kept_distinct: "distinct items \<Longrightarrow> distinct (prune_kept debug c items)"
  by (auto simp: prune_kept_def Let_def)

lemma prune_kept_ok: "cache_items_ok items \<Longrightarrow> cache_items_ok (prune_kept debug c items)"
  using prune_kept_subset [of debug c items] by (auto simp: cache_items_ok_def list_all_iff)

lemma prune_kept_no_debug: "prune_kept False c items = items"
  by (simp add: prune_kept_def)

subsection \<open>PruneCache and the rewriting of a record\<close>

lemma PruneCache_result:
  assumes "GetCacheHistory db p = Inr items"
  shows "\<exists>db'. PruneCache env db p block = Inr db' \<and>
           GetCacheHistory db' p
             = Inr (prune_kept (exodus_debug_fees env) (int32_wrap (block - MAX_STATE_HISTORY env)) items) \<and>
           (\<forall>k. k \<noteq> fmt_010d p \<longrightarrow> db_get db' k = db_get db k)"
proof -
  let ?c = "int32_wrap (block - MAX_STATE_HISTORY env)"
  let ?skip = "\<lambda>item. fst item < ?c \<and> exodus_debug_fees env"
  from assms have wf: "sorted items" "distinct items" "cache_items_ok items"
    using GetCacheHistory_wf by blast+
  show ?thesis
  proof (cases "items = [] \<or> fst (hd items) \<ge> ?c")
    case True
    then have "PruneCache env db p block = Inr db"
      using assms by (auto simp: PruneCache_def Let_def)
    moreover have "prune_kept (exodus_debug_fees env) ?c items = items"
      using True by (auto simp: prune_kept_def)
    ultimately show ?thesis
      using assms by simp
  next
    case False
    let ?kept = "filter (\<lambda>item. \<not> ?skip item) items"
    let ?new = "if ?kept = [] then [last items] else ?kept"
    have nv: "readd_entries ?skip items [] = join_with CHR '','' (map fmt_cache_item ?kept)"
      by (rule readd_entries_Nil)
    have val: "(if readd_entries ?skip items [] = [] then fmt_cache_item (last items)
                else readd_entries ?skip items [])
               = join_with CHR '','' (map fmt_cache_item ?new)"
      by (simp add: nv join_with_eq_Nil)
    have run: "PruneCache env db p block
                 = Inr (db_put (fmt_010d p) (join_with CHR '','' (map fmt_cache_item ?new)) db)"
      using False assms val by (simp add: PruneCache_def Let_def)
    have new: "?new = prune_kept (exodus_debug_fees env) ?c items"
      using False by (simp add: prune_kept_def Let_def)
    have "sorted ?new" "distinct ?new" "cache_items_ok ?new"
      unfolding new using wf by (simp_all add: prune_kept_sorted prune_kept_distinct prune_kept_ok)
    then have "GetCacheHistory (db_put (fmt_010d p) (join_with CHR '','' (map fmt_cache_item ?new)) db) p
                 = Inr ?new"
      by (intro GetCacheHistory_put_sorted)
    then show ?thesis
      using run new by (simp add: db_get_put)
  qed
qed

lemma replace_entry_wf:
  assumes "sorted items" "distinct items" "cache_items_ok items" "int32_range block" "int64_range amount"
  shows "sorted (replace_entry items block amount) \<and> distinct (replace_entry items block amount)
           \<and> cache_items_ok (replace_entry items block amount)"
  using assms
  by (simp add: replace_entry_def sorted_set_insert distinct_set_insert cache_items_ok_set_insert
      cache_items_ok_filter sorted_wrt_filter)

lemma set_replace_entry:
  "set (replace_entry items block amount) = insert (block, amount) {i \<in> set items. fst i \<noteq> block}"
  by (auto simp: replace_entry_def set_set_insert)

lemma GetCacheHistory_rewrite:
  assumes "sorted items" "distinct items" "cache_items_ok items" "int32_range block" "int64_range amount"
  shows "GetCacheHistory (db_put (fmt_010d p) (rewrite_with items block amount) db) p
           = Inr (replace_entry items block amount)"
proof -
  let ?xs = "filter (\<lambda>i. fst i \<noteq> block) items @ [(block, amount)]"
  have ok: "cache_items_ok ?xs"
    using assms by (simp add: cache_items_ok_def list_all_iff)
  have "sorted_list_of_set (set ?xs) = replace_entry items block amount"
  proof -
    have "set ?xs = set (replace_entry items block amount)"
      by (auto simp: set_replace_entry)
    then show ?thesis
      using replace_entry_wf [OF assms]
      by (simp only: sorted_list_of_set.idem_if_sorted_distinct)
  qed
  then show ?thesis
    using GetCacheHistory_put_same [OF ok, of p db] by (simp add: rewrite_with_join)
qed

subsection \<open>The example tables\<close>

lemma example_cache_history: "GetCacheHistory example_cache 3 = Inr [(100, 5), (200, 7)]"
proof -
  have "case GetCacheHistory example_cache 3 of Inl e \<Rightarrow> False | Inr v \<Rightarrow> v = [(100, 5), (200, 7)]"
    by code_simp
  then show ?thesis
    by (simp split: sum.splits)
qed

subsection \<open>Rolling back the fee history\<close>

lemma RollBackHistory_scan_result:
  assumes "\<forall>r\<in>set recs. \<not> record_throws (snd r)"
  shows "RollBackHistory_scan block recs db
           = Inr (filter (\<lambda>r. fst r \<notin> fst ` {r' \<in> set recs. rolled_back block (snd r')}) db)"
  using assms
proof (induction recs arbitrary: db)
  case Nil
  then show ?case by simp
next
  case (Cons rec recs)
  obtain k v where rec: "rec = (k, v)" by (cases rec)
  let ?del = "\<lambda>recs. fst ` {r' \<in> set recs. rolled_back block (snd r')}"
  have IH: "\<And>db. RollBackHistory_scan block recs db = Inr (filter (\<lambda>r. fst r \<notin> ?del recs) db)"
    using Cons by simp
  have nt: "\<not> record_throws v"
    using Cons.prems rec by simp
  show ?case
  proof (cases "rolled_back block v")
    case True
    then obtain b where b: "stored_block v = Some b" "b \<ge> block"
      by (auto simp: rolled_back_def split: option.splits)
    then have len: "length (split_compress (is_any_of '':'') v) = 4"
      and cast: "lexical_cast_int (split_compress (is_any_of '':'') v ! 0) = Some b"
      by (auto simp: stored_block_def Let_def split: if_splits)
    have "RollBackHistory_scan block (rec # recs) db
            = RollBackHistory_scan block recs (db_delete k db)"
      using rec len cast b(2) by (simp add: Let_def)
    also have "\<dots> = Inr (filter (\<lambda>r. fst r \<notin> ?del recs) (db_delete k db))"
      by (rule IH)
    also have "filter (\<lambda>r. fst r \<notin> ?del recs) (db_delete k db)
                 = filter (\<lambda>r. fst r \<notin> ?del (rec # recs)) db"
    proof -
      have "?del (rec # recs) = insert k (?del recs)"
        using True rec by force
      then show ?thesis
        by (simp add: db_delete_def conj_commute)
    qed
    finally show ?thesis .
  next
    case False
    have "RollBackHistory_scan block (rec # recs) db = RollBackHistory_scan block recs db"
    proof (cases "length (split_compress (is_any_of '':'') v) = 4")
      case len: True
      with nt obtain b where b: "stored_block v = Some b"
        by (auto simp: record_throws_def)
      with False have "\<not> b \<ge> block"
        by (simp add: rolled_back_def)
      moreover have "lexical_cast_int (split_compress (is_any_of '':'') v ! 0) = Some b"
        using b len by (simp add: stored_block_def Let_def)
      ultimately show ?thesis
        using rec len by (simp add: Let_def)
    next
      case False
      then show ?thesis
        using rec by (simp add: Let_def)
    qed
    also have "\<dots> = Inr (filter (\<lambda>r. fst r \<notin> ?del recs) db)"
      by (rule IH)
    also have "filter (\<lambda>r. fst r \<notin> ?del recs) db = filter (\<lambda>r. fst r \<notin> ?del (rec # recs)) db"
    proof -
      have "?del (rec # recs) = ?del recs"
        using False rec by force
      then show ?thesis by simp
    qed
    finally show ?thesis .
  qed
qed

lemma example_history_stored_blocks:
  "stored_block ''100:3:50:addrA=20,addrB=30'' = Some 100"
  "stored_block ''500:3:70:'' = Some 500"
  "stored_block ''bad'' = None"
  "length (split_compress (is_any_of '':'') ''bad'') = 1"
  by code_simp+

subsection \<open>Writing and reading a fee history record\<close>

lemma foldl_append_concat: "foldl (\<lambda>str r. str @ f r) acc rs = acc @ concat (map f rs)"
  by (induction rs arbitrary: acc) simp_all

lemma concat_map_snoc_join:
  "ts \<noteq> [] \<Longrightarrow> concat (map (\<lambda>t. t @ [d]) ts) = join_with d ts @ [d]"
  by (induction d ts rule: join_with.induct) simp_all

lemma fmt_recipient_entry: "fmt_recipient r = recipient_entry r @ [CHR '','']"
  by (simp add: fmt_recipient_def recipient_entry_def)

lemma recipients_text:
  "(if rs \<noteq> [] then
      (if length (foldl (\<lambda>str tempRecipient. str @ fmt_recipient tempRecipient) [] rs) > 0
       then take (length (foldl (\<lambda>str tempRecipient. str @ fmt_recipient tempRecipient) [] rs) - 1)
              (foldl (\<lambda>str tempRecipient. str @ fmt_recipient tempRecipient) [] rs)
       else foldl (\<lambda>str tempRecipient. str @ fmt_recipient tempRecipient) [] rs)
    else [])
   = join_with CHR '','' (map recipient_entry rs)"
proof (cases "rs = []")
  case True
  then show ?thesis by simp
next
  case False
  have "foldl (\<lambda>str r. str @ fmt_recipient r) [] rs
          = concat (map (\<lambda>t. t @ [CHR '','']) (map recipient_entry rs))"
    by (simp add: foldl_append_concat fmt_recipient_entry comp_def)
  also have "\<dots> = join_with CHR '','' (map recipient_entry rs) @ [CHR '','']"
    using False by (intro concat_map_snoc_join) simp
  finally show ?thesis
    using False by simp
qed

lemma RecordFeeDistribution_value:
  "RecordFeeDistribution db p block total_amount rs
     = db_put (fmt_int (CountRecords db + 1))
         (join_with CHR '':''
            [fmt_int block, fmt_int (int p), fmt_int total_amount,
             join_with CHR '','' (map recipient_entry rs)])
         db"
  by (simp only: RecordFeeDistribution_def Let_def recipients_text) simp

lemma recipient_entry_chars:
  assumes "plain_address (fst r)" and "c \<in> set (recipient_entry r)"
  shows "c \<noteq> CHR '':''" and "c \<noteq> CHR '',''"
  using assms fmt_int_no_colon [of "snd r"] fmt_int_no_comma [of "snd r"]
  by (auto simp: recipient_entry_def plain_address_def)

lemma recipient_entry_ne: "recipient_entry r \<noteq> []"
  by (simp add: recipient_entry_def)

lemma join_with_chars:
  "c \<in> set (join_with d ts) \<Longrightarrow> c = d \<or> (\<exists>t\<in>set ts. c \<in> set t)"
proof (induction d ts rule: join_with.induct)
  case (3 d t u us)
  from "3.prems" have "c \<in> set (t @ d # join_with d (u # us))"
    by simp
  then have "c \<in> set t \<or> c = d \<or> c \<in> set (join_with d (u # us))"
    unfolding set_append list.set by blast
  then show ?case
  proof (elim disjE)
    assume "c \<in> set t"
    then show ?thesis by simp
  next
    assume "c = d"
    then show ?thesis by simp
  next
    assume "c \<in> set (join_with d (u # us))"
    then have "c = d \<or> (\<exists>t\<in>set (u # us). c \<in> set t)"
      by (rule "3.IH")
    then show ?thesis by auto
  qed
qed simp_all

lemma recipients_no_colon:
  assumes "\<forall>r\<in>set rs. plain_address (fst r)"
  shows "CHR '':'' \<notin> set (join_with CHR '','' (map recipient_entry rs))"
proof
  assume "CHR '':'' \<in> set (join_with CHR '','' (map recipient_entry rs))"
  then obtain t where "t \<in> set (map recipient_entry rs)" "CHR '':'' \<in> set t"
    using join_with_chars [of "CHR '':''" "CHR '',''" "map recipient_entry rs"] by blast
  then obtain r where "r \<in> set rs" "CHR '':'' \<in> set (recipient_entry r)"
    by auto
  with assms show False
    using recipient_entry_chars(1) by blast
qed

lemma split_record_fields:
  assumes "\<forall>r\<in>set rs. plain_address (fst r)"
  shows "split_compress (is_any_of '':'')
           (join_with CHR '':''
              [fmt_int block, fmt_int (int p), fmt_int total_amount,
               join_with CHR '','' (map recipient_entry rs)])
         = [fmt_int block, fmt_int (int p), fmt_int total_amount,
            join_with CHR '','' (map recipient_entry rs)]"
proof (rule split_compress_join)
  show "\<forall>t\<in>set [fmt_int block, fmt_int (int p), fmt_int total_amount,
                  join_with CHR '','' (map recipient_entry rs)]. \<forall>c\<in>set t. \<not> is_any_of '':'' c"
    using recipients_no_colon [OF assms] fmt_int_no_colon
    by (auto simp: is_any_of_def)
  show "\<forall>t\<in>set (butlast (tl [fmt_int block, fmt_int (int p), fmt_int total_amount,
                  join_with CHR '','' (map recipient_entry rs)])). t \<noteq> []"
    by (simp add: fmt_int_ne)
qed (simp_all add: is_any_of_def)

lemma split_recipient_entry:
  assumes "plain_address (fst r)"
  shows "split_compress (is_any_of ''='') (recipient_entry r) = [fst r, fmt_int (snd r)]"
proof -
  have a: "\<forall>c\<in>set (fst r). \<not> is_any_of ''='' c"
    using assms by (auto simp: plain_address_def is_any_of_def)
  have b: "\<forall>c\<in>set (fmt_int (snd r)). \<not> is_any_of ''='' c"
    using fmt_int_no_equals [of "snd r"] by (auto simp: is_any_of_def)
  have "dropWhile (is_any_of ''='') (fmt_int (snd r)) = fmt_int (snd r)"
    using b fmt_int_ne [of "snd r"] by (intro dropWhile_hd_id) simp
  moreover have "split_compress (is_any_of ''='') (fst r @ CHR ''='' # fmt_int (snd r))
      = fst r # split_compress (is_any_of ''='') (dropWhile (is_any_of ''='') (fmt_int (snd r)))"
    using a by (intro split_compress_at_delim) (simp_all add: is_any_of_def)
  ultimately show ?thesis
    using b by (simp add: recipient_entry_def split_compress_no_delim)
qed

lemma GetFeeDistribution_loop_entries:
  "\<forall>r\<in>set rs. plain_address (fst r) \<and> int64_range (snd r) \<Longrightarrow>
     GetFeeDistribution_loop (map recipient_entry rs) acc = Inr (foldl (\<lambda>s r. set_insert r s) acc rs)"
proof (induction rs arbitrary: acc)
  case Nil
  then show ?case by simp
next
  case (Cons r rs)
  then have r: "plain_address (fst r)" "int64_range (snd r)"
    by simp_all
  have "GetFeeDistribution_loop (recipient_entry r # map recipient_entry rs) acc
          = GetFeeDistribution_loop (map recipient_entry rs) (set_insert r acc)"
    using r by (simp add: split_recipient_entry lexical_cast_int64_fmt)
  then show ?case
    using Cons by simp
qed

lemma split_recipients:
  assumes "rs \<noteq> []" and "\<forall>r\<in>set rs. plain_address (fst r)"
  shows "split_compress (is_any_of '','') (join_with CHR '','' (map recipient_entry rs))
           = map recipient_entry rs"
proof (rule split_compress_join)
  show "map recipient_entry rs \<noteq> []"
    using assms by simp
  show "\<forall>t\<in>set (map recipient_entry rs). \<forall>c\<in>set t. \<not> is_any_of '','' c"
    using assms(2) recipient_entry_chars(2) by (fastforce simp: is_any_of_def)
  show "is_any_of '','' CHR '',''"
    by (simp add: is_any_of_def)
  show "\<forall>t\<in>set (butlast (tl (map recipient_entry rs))). t \<noteq> []"
  proof
    fix t
    assume "t \<in> set (butlast (tl (map recipient_entry rs)))"
    then have "t \<in> set (tl (map recipient_entry rs))"
      by (rule in_set_butlastD)
    then have "t \<in> set (map recipient_entry rs)"
      by (cases rs) auto
    then show "t \<noteq> []"
      using recipient_entry_ne by auto
  qed
qed

lemma parse_recipients:
  assumes "\<forall>r\<in>set rs. plain_address (fst r) \<and> int64_range (snd r)"
  shows "GetFeeDistribution_loop
           (split_compress (is_any_of '','') (join_with CHR '','' (map recipient_entry rs))) []
         = Inr (sorted_list_of_set (set rs))"
proof (cases "rs = []")
  case True
  then show ?thesis
    by (simp add: split_compress_no_delim)
next
  case False
  then show ?thesis
    using assms by (simp add: split_recipients GetFeeDistribution_loop_entries foldl_set_insert)
qed

lemma GetDistributionData_written:
  assumes "p < 2 ^ 32" and "int32_range block" and "int64_range total_amount"
    and "\<forall>r\<in>set rs. plain_address (fst r)"
  shows "GetDistributionData (RecordFeeDistribution db p block total_amount rs) (CountRecords db + 1)
           = Inr (Some (p, block, total_amount))"
  using assms
  by (simp add: RecordFeeDistribution_value GetDistributionData_def db_get_put Let_def
      split_record_fields lexical_cast_int_fmt lexical_cast_uint32_fmt lexical_cast_int64_fmt
      del: join_with.simps)

lemma GetFeeDistribution_written:
  assumes "\<forall>r\<in>set rs. plain_address (fst r) \<and> int64_range (snd r)"
  shows "GetFeeDistribution (RecordFeeDistribution db p block total_amount rs) (CountRecords db + 1)
           = Inr (sorted_list_of_set (set rs))"
  using assms
  by (simp add: RecordFeeDistribution_value GetFeeDistribution_def db_get_put Let_def
      split_record_fields parse_recipients del: join_with.simps)

subsection \<open>Rolling back the cache\<close>

lemma filter_below_id:
  assumes "sorted (items :: feeCacheItem list)" and "items = [] \<or> fst (last items) < block"
  shows "filter (\<lambda>i. fst i < block) items = items"
proof -
  have "fst i < block" if "i \<in> set items" for i
    using sorted_fst_le_last [OF assms(1) that] assms(2) that by auto
  then show ?thesis
    by (simp add: filter_id_conv)
qed

lemma RollBackCache_loop_result:
  assumes "\<forall>p\<in>set ps. \<exists>items. GetCacheHistory db p = Inr items"
  shows "\<exists>db'. RollBackCache_loop block ps db = Inr db' \<and>
           (\<forall>q items. GetCacheHistory db q = Inr items \<longrightarrow>
              GetCacheHistory db' q
                = Inr (if q \<in> set ps then filter (\<lambda>i. fst i < block) items else items))"
  using assms
proof (induction ps arbitrary: db)
  case Nil
  then show ?case by simp
next
  case (Cons p ps)
  then obtain items where items: "GetCacheHistory db p = Inr items"
    by auto
  then have wf: "sorted items" "distinct items" "cache_items_ok items"
    using GetCacheHistory_wf by blast+
  let ?f = "filter (\<lambda>i. fst i < block)"
  show ?case
  proof (cases "items = [] \<or> fst (last items) < block")
    case True
    then have run: "RollBackCache_loop block (p # ps) db = RollBackCache_loop block ps db"
      using items by auto
    have same: "?f items = items"
      using wf(1) True by (rule filter_below_id)
    from Cons.prems have "\<forall>q\<in>set ps. \<exists>items. GetCacheHistory db q = Inr items"
      by simp
    from Cons.IH [OF this] obtain db' where db': "RollBackCache_loop block ps db = Inr db'"
      "\<And>q its. GetCacheHistory db q = Inr its \<Longrightarrow>
         GetCacheHistory db' q = Inr (if q \<in> set ps then ?f its else its)"
      by blast
    have "GetCacheHistory db' q = Inr (if q \<in> set (p # ps) then ?f its else its)"
      if "GetCacheHistory db q = Inr its" for q its
    proof (cases "q = p")
      case True
      with that items have "its = items" by simp
      with db'(2) [OF that] same show ?thesis by simp
    next
      case False
      with db'(2) [OF that] show ?thesis by simp
    qed
    with run db'(1) show ?thesis by auto
  next
    case False
    let ?db1 = "db_put (fmt_010d p)
                  (readd_entries (\<lambda>tempItem. fst tempItem \<ge> block) items []) db"
    have run: "RollBackCache_loop block (p # ps) db = RollBackCache_loop block ps ?db1"
      using items False by auto
    have "filter (\<lambda>i. \<not> block \<le> fst i) items = ?f items"
      by (intro filter_cong) auto
    then have val: "readd_entries (\<lambda>tempItem. fst tempItem \<ge> block) items []
                 = join_with CHR '','' (map fmt_cache_item (?f items))"
      by (simp add: readd_entries_Nil)
    have hp: "GetCacheHistory ?db1 p = Inr (?f items)"
      unfolding val using wf
      by (intro GetCacheHistory_put_sorted) (simp_all add: cache_items_ok_filter sorted_wrt_filter)
    have hq: "GetCacheHistory ?db1 q = GetCacheHistory db q" if "q \<noteq> p" for q
      using that by (rule GetCacheHistory_put_other)
    have "\<forall>q\<in>set ps. \<exists>items. GetCacheHistory ?db1 q = Inr items"
    proof
      fix q assume "q \<in> set ps"
      with Cons.prems obtain its where "GetCacheHistory db q = Inr its" by auto
      then show "\<exists>items. GetCacheHistory ?db1 q = Inr items"
        using hp hq [of q] by (cases "q = p") auto
    qed
    from Cons.IH [OF this] obtain db' where db': "RollBackCache_loop block ps ?db1 = Inr db'"
      "\<And>q its. GetCacheHistory ?db1 q = Inr its \<Longrightarrow>
         GetCacheHistory db' q = Inr (if q \<in> set ps then ?f its else its)"
      by blast
    have "GetCacheHistory db' q = Inr (if q \<in> set (p # ps) then ?f its else its)"
      if "GetCacheHistory db q = Inr its" for q its
    proof (cases "q = p")
      case True
      with that items have "its = items" by simp
      with db'(2) [OF hp] True show ?thesis by simp
    next
      case False
      with that hq have "GetCacheHistory ?db1 q = Inr its" by simp
      from db'(2) [OF this] False show ?thesis by simp
    qed
    with run db'(1) show ?thesis by auto
  qed
qed

lemma RollBackCache_loop_noop:
  assumes "\<forall>p\<in>set ps. \<exists>items. GetCacheHistory db p = Inr items \<and> (\<forall>i\<in>set items. fst i < block)"
  shows "RollBackCache_loop block ps db = Inr db"
  using assms
proof (induction ps)
  case Nil
  then show ?case by simp
next
  case (Cons p ps)
  then obtain items where items: "GetCacheHistory db p = Inr items" "\<forall>i\<in>set items. fst i < block"
    by auto
  then have "items = [] \<or> fst (last items) < block"
    by (cases "items = []") auto
  then have "RollBackCache_loop block (p # ps) db = RollBackCache_loop block ps db"
    using items(1) by auto
  with Cons show ?case by simp
qed

lemma history_exists:
  "(case GetCacheHistory db p of Inl e \<Rightarrow> False | Inr items \<Rightarrow> True)
     \<Longrightarrow> \<exists>items. GetCacheHistory db p = Inr items"
  by (cases "GetCacheHistory db p") simp_all

subsection \<open>ClearCache\<close>

lemma sorted_last_eq:
  assumes "sorted xs" and "x \<in> set xs" and "\<forall>y\<in>set xs. y \<le> x"
  shows "last xs = (x :: 'a :: linorder)"
proof -
  from assms(2) have ne: "xs \<noteq> []" by auto
  then have "last xs \<in> set xs" by simp
  with assms(3) have "last xs \<le> x" by blast
  moreover have "x \<le> last xs"
  proof -
    from assms(2) obtain k where k: "k < length xs" "xs ! k = x"
      by (auto simp: in_set_conv_nth)
    then have "xs ! k \<le> xs ! (length xs - 1)"
      using assms(1) by (intro sorted_nth_mono) auto
    with k ne show ?thesis by (simp add: last_conv_nth)
  qed
  ultimately show ?thesis by simp
qed

lemma sorted_le_last:
  assumes "sorted xs" and "x \<in> set xs"
  shows "x \<le> (last xs :: 'a :: linorder)"
proof -
  from assms(2) have ne: "xs \<noteq> []" by auto
  from assms(2) obtain k where k: "k < length xs" "xs ! k = x"
    by (auto simp: in_set_conv_nth)
  then have "xs ! k \<le> xs ! (length xs - 1)"
    using assms(1) by (intro sorted_nth_mono) auto
  with k ne show ?thesis by (simp add: last_conv_nth)
qed

lemma replace_entry_ne: "replace_entry items block amount \<noteq> []"
  using set_replace_entry [of items block amount] by auto

lemma replace_entry_last_new:
  assumes "sorted items" "distinct items" "cache_items_ok items" "int32_range block" "int64_range amount"
    and "\<forall>i\<in>set items. fst i \<le> block"
  shows "last (replace_entry items block amount) = (block, amount)"
proof (rule sorted_last_eq)
  show "sorted (replace_entry items block amount)"
    using replace_entry_wf [OF assms(1-5)] by simp
  show "(block, amount) \<in> set (replace_entry items block amount)"
    by (simp add: set_replace_entry)
  show "\<forall>y\<in>set (replace_entry items block amount). y \<le> (block, amount)"
    using assms(6) by (auto simp: set_replace_entry less_eq_prod_def)
qed

lemma replace_entry_last_later:
  assumes "sorted items" "distinct items" "cache_items_ok items" "int32_range block" "int64_range amount"
    and "i \<in> set items" and "block < fst i"
  shows "last (replace_entry items block amount) = last items"
proof (rule sorted_last_eq)
  have ne: "items \<noteq> []" using assms(6) by auto
  have big: "block < fst (last items)"
    using sorted_fst_le_last [OF assms(1,6)] assms(7) by simp
  show "sorted (replace_entry items block amount)"
    using replace_entry_wf [OF assms(1-5)] by simp
  show "last items \<in> set (replace_entry items block amount)"
    using ne big by (simp add: set_replace_entry)
  show "\<forall>y\<in>set (replace_entry items block amount). y \<le> last items"
  proof
    fix y assume "y \<in> set (replace_entry items block amount)"
    then have "y = (block, amount) \<or> y \<in> set items"
      by (auto simp: set_replace_entry)
    then show "y \<le> last items"
    proof
      assume "y = (block, amount)"
      with big show ?thesis by (simp add: less_eq_prod_def)
    next
      assume "y \<in> set items"
      with assms(1) show ?thesis by (rule sorted_le_last)
    qed
  qed
qed

lemma ClearCache_result:
  assumes "GetCacheHistory db p = Inr items" and "int32_range block"
  shows "\<exists>db'. ClearCache env db p block = Inr db' \<and>
           GetCacheHistory db' p
             = Inr (prune_kept (exodus_debug_fees env) (int32_wrap (block - MAX_STATE_HISTORY env))
                      (replace_entry items block 0)) \<and>
           (\<forall>k. k \<noteq> fmt_010d p \<longrightarrow> db_get db' k = db_get db k)"
proof -
  from assms(1) have wf: "sorted items" "distinct items" "cache_items_ok items"
    using GetCacheHistory_wf by blast+
  let ?db1 = "db_put (fmt_010d p) (rewrite_with items block 0) db"
  have z: "int64_range 0" by (simp add: int64_range_def)
  have h1: "GetCacheHistory ?db1 p = Inr (replace_entry items block 0)"
    using wf assms(2) z by (rule GetCacheHistory_rewrite)
  from PruneCache_result [OF h1, of env block] obtain db' where
    "PruneCache env ?db1 p block = Inr db'"
    "GetCacheHistory db' p
       = Inr (prune_kept (exodus_debug_fees env) (int32_wrap (block - MAX_STATE_HISTORY env))
                (replace_entry items block 0))"
    "\<forall>k. k \<noteq> fmt_010d p \<longrightarrow> db_get db' k = db_get ?db1 k"
    by blast
  then show ?thesis
    using assms(1) by (auto simp: ClearCache_def db_get_put)
qed

lemma example_debug_clear:
  "ClearCache example_env_debug example_cache 3 1000 = Inr [(''0000000003'', ''1000:0'')]"
proof -
  have "case ClearCache example_env_debug example_cache 3 1000 of
          Inl e \<Rightarrow> False | Inr db \<Rightarrow> db = [(''0000000003'', ''1000:0'')]"
    by code_simp
  then show ?thesis
    by (simp split: sum.splits)
qed

lemma example_cleared_history: "GetCacheHistory [(''0000000003'', ''1000:0'')] 3 = Inr [(1000, 0)]"
proof -
  have "case GetCacheHistory [(''0000000003'', ''1000:0'')] 3 of
          Inl e \<Rightarrow> False | Inr v \<Rightarrow> v = [(1000, 0)]"
    by code_simp
  then show ?thesis
    by (simp split: sum.splits)
qed

subsection \<open>The credit loop\<close>

lemma sent_so_far_total:
  "int64_range s \<Longrightarrow>
     foldl (\<lambda>s r. int64_wrap (s + fst r)) s rs = int64_wrap (s + sum_list (map fst rs))"
proof (induction rs arbitrary: s)
  case Nil
  then show ?case by (simp add: int64_wrap_id)
next
  case (Cons r rs)
  have "foldl (\<lambda>s r. int64_wrap (s + fst r)) (int64_wrap (s + fst r)) rs
          = int64_wrap (int64_wrap (s + fst r) + sum_list (map fst rs))"
    by (rule Cons.IH) (rule int64_wrap_range)
  then show ?case
    by (simp add: int64_wrap_add_left add.assoc)
qed

lemma credit_receivers_result:
  assumes "\<forall>t. \<forall>r\<in>set rs. tally_accepts env t (snd r) p (fst r)"
  shows "credit_receivers env p rs (t, s, h)
           = Some (credited p rs t,
                   foldl (\<lambda>s r. int64_wrap (s + fst r)) s rs,
                   foldl (\<lambda>h r. set_insert (snd r, fst r) h) h rs)"
  using assms
proof (induction rs arbitrary: t s h)
  case Nil
  then show ?case by (simp add: credited_def)
next
  case (Cons r rs)
  obtain amt a where r: "r = (amt, a)" by (cases r)
  have acc: "tally_accepts env t a p amt"
    using Cons.prems r by simp
  have rest: "\<forall>t. \<forall>r\<in>set rs. tally_accepts env t (snd r) p (fst r)"
    using Cons.prems by simp
  show ?case
    using acc r Cons.IH [OF rest] by (simp add: update_tally_map_def credited_def)
qed

lemma credit_receivers_refused:
  "credit_receivers env p rs acc = None \<Longrightarrow> \<exists>t. \<exists>r\<in>set rs. \<not> tally_accepts env t (snd r) p (fst r)"
proof (induction rs arbitrary: acc)
  case Nil
  then show ?case by simp
next
  case (Cons r rs)
  obtain amt a where r: "r = (amt, a)" by (cases r)
  obtain t s h where acc: "acc = (t, s, h)" by (cases acc)
  show ?case
  proof (cases "tally_accepts env t a p amt")
    case True
    with Cons.prems r acc obtain acc' where "credit_receivers env p rs acc' = None"
      by (auto simp: update_tally_map_def)
    from Cons.IH [OF this] show ?thesis by auto
  next
    case False
    with r show ?thesis by auto
  qed
qed

lemma credited_at:
  "credited p rs t (a, q) = t (a, q) + (if q = p then share_of rs a else 0)"
proof (induction rs arbitrary: t)
  case Nil
  then show ?case by (simp add: credited_def share_of_def)
next
  case (Cons r rs)
  define t' where "t' = t((snd r, p) := t (snd r, p) + fst r)"
  have step: "credited p (r # rs) t = credited p rs t'"
    by (simp add: credited_def t'_def)
  have "credited p rs t' (a, q) = t' (a, q) + (if q = p then share_of rs a else 0)"
    by (rule Cons.IH)
  moreover have "t' (a, q) = t (a, q) + (if q = p \<and> snd r = a then fst r else 0)"
    by (simp add: t'_def)
  moreover have "share_of (r # rs) a = (if snd r = a then fst r else 0) + share_of rs a"
    by (simp add: share_of_def)
  ultimately show ?case
    unfolding step by simp
qed

lemma share_of_absent: "a \<notin> snd ` set rs \<Longrightarrow> share_of rs a = 0"
proof -
  assume "a \<notin> snd ` set rs"
  then have "filter (\<lambda>r. snd r = a) rs = []"
    by (auto simp: filter_empty_conv)
  then show ?thesis by (simp add: share_of_def)
qed

lemma share_of_total: "(\<Sum>a\<in>snd ` set rs. share_of rs a) = sum_list (map fst rs)"
proof (induction rs)
  case Nil
  then show ?case by simp
next
  case (Cons r rs)
  let ?A = "snd ` set rs" and ?A' = "snd ` set (r # rs)"
  have fin: "finite ?A'" by simp
  have split: "share_of (r # rs) a = (if snd r = a then fst r else 0) + share_of rs a" for a
    by (simp add: share_of_def)
  have "(\<Sum>a\<in>?A'. share_of (r # rs) a)
          = (\<Sum>a\<in>?A'. if snd r = a then fst r else 0) + (\<Sum>a\<in>?A'. share_of rs a)"
    by (simp add: split sum.distrib)
  also have "(\<Sum>a\<in>?A'. if snd r = a then fst r else 0) = fst r"
    using fin by (simp add: sum.delta')
  also have "(\<Sum>a\<in>?A'. share_of rs a) = (\<Sum>a\<in>?A. share_of rs a)"
    by (rule sum.mono_neutral_right) (auto simp: share_of_absent)
  finally show ?case
    using Cons.IH by simp
qed

lemma share_of_rev: "share_of (rev rs) a = share_of rs a"
  by (simp add: share_of_def rev_filter [symmetric] rev_map [symmetric])

lemma history_items_result:
  "foldl (\<lambda>h r. set_insert (snd r, fst r) h) [] rs = recipients_of rs"
proof -
  have "foldl (\<lambda>h r. set_insert (snd r, fst r) h) h rs
          = foldl (\<lambda>h x. set_insert x h) h (map (\<lambda>r. (snd r, fst r)) rs)" for h
    by (induction rs arbitrary: h) simp_all
  then show ?thesis
    by (simp add: foldl_set_insert recipients_of_def)
qed

lemma recipients_of_rev: "recipients_of (rev rs) = recipients_of rs"
  by (simp add: recipients_of_def)

subsection \<open>Faults and what a call leaves alone\<close>

lemma GetCacheHistory_loop_fault: "GetCacheHistory_loop toks acc = Inl e \<Longrightarrow> e = bad_lexical_cast"
  by (induction toks arbitrary: acc) (auto simp: Let_def split: if_splits option.splits)

lemma GetCacheHistory_fault: "GetCacheHistory db p = Inl e \<Longrightarrow> e = bad_lexical_cast"
  by (auto simp: GetCacheHistory_def split: option.splits dest: GetCacheHistory_loop_fault)

lemma GetCachedAmount_fault: "GetCachedAmount db p = Inl e \<Longrightarrow> e = bad_lexical_cast"
  by (auto simp: GetCachedAmount_def split: sum.splits dest: GetCacheHistory_fault)

lemma PruneCache_fault: "PruneCache env db p block = Inl e \<Longrightarrow> e = bad_lexical_cast"
  by (auto simp: PruneCache_def Let_def split: sum.splits if_splits dest: GetCacheHistory_fault)

lemma ClearCache_fault: "ClearCache env db p block = Inl e \<Longrightarrow> e = bad_lexical_cast"
  by (auto simp: ClearCache_def split: sum.splits dest: GetCacheHistory_fault PruneCache_fault)

lemma DistributeCache_fault:
  "DistributeCache env st p block = Inl e \<Longrightarrow> e = bad_lexical_cast \<or> e = assertion_failed"
  by (auto simp: DistributeCache_def Let_def
      split: sum.splits option.splits prod.splits if_splits
      dest: GetCachedAmount_fault ClearCache_fault)

lemma DistributeCache_Inr:
  assumes "DistributeCache env st p block = Inr st'"
  shows "ClearCache env (feecache st) p block = Inr (feecache st') \<and>
         fatal_log st' = fatal_log st \<and> MP_persist st' = MP_persist st \<and>
         distributionThresholds st' = distributionThresholds st"
  using assms
  by (auto simp: DistributeCache_def Let_def
      split: sum.splits option.splits prod.splits if_splits)

lemma thresholds_at_frame:
  "feecache (snd (thresholds_at st p)) = feecache st"
  "feehistory (snd (thresholds_at st p)) = feehistory st"
  "mp_tally_map (snd (thresholds_at st p)) = mp_tally_map st"
  "fatal_log (snd (thresholds_at st p)) = fatal_log st"
  "MP_persist (snd (thresholds_at st p)) = MP_persist st"
  by (simp_all add: thresholds_at_def split: option.splits)

lemma EvalCache_fault:
  "EvalCache env st p block = Inl e \<Longrightarrow> e = bad_lexical_cast \<or> e = assertion_failed"
  by (auto simp: EvalCache_def Let_def split: sum.splits prod.splits if_splits
      dest: GetCachedAmount_fault DistributeCache_fault)

lemma EvalCache_Inr:
  assumes "EvalCache env st p block = Inr st'"
  shows "(feecache st' = feecache st \<or> ClearCache env (feecache st) p block = Inr (feecache st')) \<and>
         fatal_log st' = fatal_log st \<and> MP_persist st' = MP_persist st"
proof -
  obtain thr st1 where t: "thresholds_at st p = (thr, st1)"
    by (cases "thresholds_at st p")
  then have st1: "st1 = snd (thresholds_at st p)" by simp
  from assms t have "st' = st1 \<or> DistributeCache env st1 p block = Inr st'"
    by (auto simp: EvalCache_def Let_def split: sum.splits if_splits)
  then show ?thesis
  proof
    assume "st' = st1"
    then show ?thesis by (simp add: st1 thresholds_at_frame)
  next
    assume "DistributeCache env st1 p block = Inr st'"
    from DistributeCache_Inr [OF this] show ?thesis
      by (simp add: st1 thresholds_at_frame)
  qed
qed

subsection \<open>DistributeCache\<close>

lemma ClearCache_zero:
  assumes "GetCacheHistory db p = Inr items" and "int32_range block"
    and "\<forall>i\<in>set items. fst i \<le> block"
  shows "\<exists>db'. ClearCache env db p block = Inr db' \<and> GetCachedAmount db' p = Inr 0"
proof -
  let ?items1 = "replace_entry items block 0"
  let ?items' = "prune_kept (exodus_debug_fees env) (int32_wrap (block - MAX_STATE_HISTORY env)) ?items1"
  from assms(1) have wf: "sorted items" "distinct items" "cache_items_ok items"
    using GetCacheHistory_wf by blast+
  have z: "int64_range 0" by (simp add: int64_range_def)
  have wf1: "sorted ?items1"
    using replace_entry_wf [OF wf assms(2) z] by simp
  have ne1: "?items1 \<noteq> []" by (rule replace_entry_ne)
  from ClearCache_result [OF assms(1,2), of env] obtain db' where
    db': "ClearCache env db p block = Inr db'" "GetCacheHistory db' p = Inr ?items'"
    by blast
  have "?items' \<noteq> []"
    using ne1 by (rule prune_kept_ne)
  moreover have "last ?items' = last ?items1"
    using wf1 ne1 by (rule prune_kept_last)
  moreover have "last ?items1 = (block, 0)"
    using wf assms(2) z assms(3) by (rule replace_entry_last_new)
  ultimately have "GetCachedAmount db' p = Inr 0"
    using db'(2) by (simp add: GetCachedAmount_def)
  with db'(1) show ?thesis by blast
qed

lemma GetCachedAmount_range:
  assumes "GetCachedAmount db p = Inr c"
  shows "int64_range c"
proof -
  from assms obtain items where items: "GetCacheHistory db p = Inr items"
    and c: "c = (if items \<noteq> [] then snd (last items) else 0)"
    by (auto simp: GetCachedAmount_def split: sum.splits)
  from items have "cache_items_ok items"
    using GetCacheHistory_wf by blast
  then have "items \<noteq> [] \<Longrightarrow> int64_range (snd (last items))"
    using last_in_set [of items] by (auto simp: cache_items_ok_def list_all_iff)
  with c show ?thesis
    by (auto simp: int64_range_def)
qed

lemma DistributeCache_credits:
  assumes cached: "GetCachedAmount (feecache st) p = Inr cachedAmount"
    and recv: "receivers = STO_GetReceivers env (mp_tally_map st) ''FEEDISTRIBUTION''
                 (if isTestEcosystemProperty env p then EXODUS_PROPERTY_TEXODUS env
                  else EXODUS_PROPERTY_EXODUS env) cachedAmount"
    and accepted: "\<forall>t. \<forall>r\<in>set receivers. tally_accepts env t (snd r) p (fst r)"
  shows "DistributeCache env st p block =
           (if int64_wrap (sum_list (map fst receivers)) \<noteq> cachedAmount then Inl assertion_failed
            else
              (case ClearCache env (feecache st) p block of
                 Inl e \<Rightarrow> Inl e
               | Inr db \<Rightarrow>
                   Inr (st\<lparr>mp_tally_map := credited p (rev receivers) (mp_tally_map st),
                           feehistory := RecordFeeDistribution (feehistory st) p block cachedAmount
                                           (recipients_of receivers),
                           feecache := db\<rparr>)))"
proof -
  have acc: "\<forall>t. \<forall>r\<in>set (rev receivers). tally_accepts env t (snd r) p (fst r)"
    using accepted by simp
  have z: "int64_range 0" by (simp add: int64_range_def)
  have sent: "foldl (\<lambda>s r. int64_wrap (s + fst r)) 0 (rev receivers)
                = int64_wrap (sum_list (map fst receivers))"
    using sent_so_far_total [OF z, of "rev receivers"]
    by (simp add: rev_map [symmetric])
  have loop: "credit_receivers env p (rev receivers) (mp_tally_map st, 0, [])
                = Some (credited p (rev receivers) (mp_tally_map st),
                        int64_wrap (sum_list (map fst receivers)),
                        recipients_of receivers)"
    using credit_receivers_result [OF acc, of "mp_tally_map st" 0 "[]"]
    by (simp add: sent history_items_result recipients_of_rev)
  show ?thesis
    using cached loop recv [symmetric]
    by (simp add: DistributeCache_def Let_def split: sum.splits)
qed

lemma example_cached_amount: "GetCachedAmount example_cache 3 = Inr 7"
  using example_cache_history by (simp add: GetCachedAmount_def)

lemma example_receivers:
  "STO_GetReceivers example_env (mp_tally_map example_state_cached) ''FEEDISTRIBUTION''
     (if isTestEcosystemProperty example_env 3 then EXODUS_PROPERTY_TEXODUS example_env
      else EXODUS_PROPERTY_EXODUS example_env) 7
   = [(3, ''addrA''), (4, ''addrB'')]"
  by (simp add: example_env_def)

lemma example_distribute_early:
  "returned_cache (DistributeCache example_env example_state_cached 3 150)
     = Some [(''0000000003'', ''100:5,200:7,150:0'')]"
  by code_simp

lemma example_early_amount:
  "GetCachedAmount [(''0000000003'', ''100:5,200:7,150:0'')] 3 = Inr 7"
proof -
  have "case GetCachedAmount [(''0000000003'', ''100:5,200:7,150:0'')] 3 of
          Inl e \<Rightarrow> False | Inr v \<Rightarrow> v = 7"
    by code_simp
  then show ?thesis
    by (simp split: sum.splits)
qed

subsection \<open>AddFee\<close>

lemma AddFee_write_fault:
  "AddFee_write env st p block c a = Inl e \<Longrightarrow> e = bad_lexical_cast \<or> e = assertion_failed"
  by (auto simp: AddFee_write_def Let_def split: sum.splits
      dest: GetCacheHistory_fault PruneCache_fault EvalCache_fault)

lemma AddFee_write_Inr:
  assumes "AddFee_write env st p block c a = Inr st'"
  shows "fatal_log st' = fatal_log st \<and> MP_persist st' = MP_persist st"
proof -
  from assms obtain db where "EvalCache env (st\<lparr>feecache := db\<rparr>) p block = Inr st'"
    by (auto simp: AddFee_write_def Let_def split: sum.splits)
  from EvalCache_Inr [OF this] show ?thesis by simp
qed

lemma AddFee_write_result:
  assumes "GetCacheHistory (feecache st) p = Inr items" and "int32_range block"
  shows "\<exists>db_w. GetCacheHistory db_w p = Inr (replace_entry items block (int64_wrap (c + a))) \<and>
           (\<forall>k. k \<noteq> fmt_010d p \<longrightarrow> db_get db_w k = db_get (feecache st) k) \<and>
           AddFee_write env st p block c a
             = (case PruneCache env db_w p block of
                  Inl e \<Rightarrow> Inl e
                | Inr db \<Rightarrow> EvalCache env (st\<lparr>feecache := db\<rparr>) p block)"
proof -
  from assms(1) have wf: "sorted items" "distinct items" "cache_items_ok items"
    using GetCacheHistory_wf by blast+
  let ?db_w = "db_put (fmt_010d p) (rewrite_with items block (int64_wrap (c + a))) (feecache st)"
  have "GetCacheHistory ?db_w p = Inr (replace_entry items block (int64_wrap (c + a)))"
    using wf assms(2) int64_wrap_range by (rule GetCacheHistory_rewrite)
  moreover have "\<forall>k. k \<noteq> fmt_010d p \<longrightarrow> db_get ?db_w k = db_get (feecache st) k"
    by (simp add: db_get_put)
  moreover have "AddFee_write env st p block c a
                   = (case PruneCache env ?db_w p block of
                        Inl e \<Rightarrow> Inl e
                      | Inr db \<Rightarrow> EvalCache env (st\<lparr>feecache := db\<rparr>) p block)"
    using assms(1) by (simp add: AddFee_write_def Let_def)
  ultimately show ?thesis by blast
qed

lemma AddFee_cases:
  assumes "GetCachedAmount (feecache st) p = Inr current"
  shows "AddFee env st p block amount =
           (if 0 < current \<and> INT64_MAX < current + amount then
              (if \<not> overrideforcedshutdown env
               then Inl (node_aborted (overflow_msg block p current amount)
                          (st\<lparr>fatal_log := fatal_log st @ [overflow_msg block p current amount],
                              MP_persist := False\<rparr>))
               else AddFee_write env
                      (st\<lparr>fatal_log := fatal_log st @ [overflow_msg block p current amount]\<rparr>)
                      p block current amount)
            else AddFee_write env st p block current amount)"
proof -
  have check: "(INT64_MAX - current < amount) = (INT64_MAX < current + amount)"
    by auto
  show ?thesis
    unfolding AddFee_def assms sum.case Let_def AbortNode_def check by simp
qed

lemma example_full_history:
  "GetCacheHistory (feecache example_state_full) 3 = Inr [(100, 9223372036854775807)]"
proof -
  have "case GetCacheHistory (feecache example_state_full) 3 of
          Inl e \<Rightarrow> False | Inr v \<Rightarrow> v = [(100, 9223372036854775807)]"
    by code_simp
  then show ?thesis
    by (simp split: sum.splits)
qed

subsection \<open>Sequences of AddFee calls\<close>

lemma distinct_fst_replace_entry:
  assumes "distinct (map fst items)"
  shows "distinct (map fst (replace_entry items block amount))"
proof -
  from assms have d: "distinct items" and inj: "inj_on fst (set items)"
    by (simp_all add: distinct_map)
  have "distinct (replace_entry items block amount)"
    using d by (simp add: replace_entry_def distinct_set_insert)
  moreover have "inj_on fst (set (replace_entry items block amount))"
    unfolding set_replace_entry using inj by (auto simp: inj_on_def)
  ultimately show ?thesis
    by (simp add: distinct_map)
qed

lemma distinct_fst_prune_kept:
  assumes "distinct (map fst items)"
  shows "distinct (map fst (prune_kept debug c items))"
proof -
  from assms have d: "distinct items" and inj: "inj_on fst (set items)"
    by (simp_all add: distinct_map)
  have "inj_on fst (set (prune_kept debug c items))"
    using inj prune_kept_subset by (rule inj_on_subset)
  then show ?thesis
    using d by (simp add: distinct_map prune_kept_distinct)
qed

lemma GetCachedAmount_of_history:
  "GetCacheHistory db p = Inr items \<Longrightarrow>
     GetCachedAmount db p = Inr (if items \<noteq> [] then snd (last items) else 0)"
  by (simp add: GetCachedAmount_def)

lemma AddFee_Inr_write:
  assumes "AddFee env st p block amount = Inr st'"
    and "GetCachedAmount (feecache st) p = Inr current"
  shows "\<exists>stw. feecache stw = feecache st \<and>
           AddFee_write env stw p block current amount = Inr st'"
proof -
  let ?st1 = "st\<lparr>fatal_log := fatal_log st @ [overflow_msg block p current amount]\<rparr>"
  from assms have "AddFee_write env ?st1 p block current amount = Inr st'
                     \<or> AddFee_write env st p block current amount = Inr st'"
    unfolding AddFee_cases [OF assms(2)] by (auto split: if_splits)
  then show ?thesis
  proof
    assume "AddFee_write env ?st1 p block current amount = Inr st'"
    moreover have "feecache ?st1 = feecache st" by simp
    ultimately show ?thesis by blast
  next
    assume "AddFee_write env st p block current amount = Inr st'"
    then show ?thesis by blast
  qed
qed

lemma AddFee_keeps_distinct_heights:
  assumes run: "AddFee env st p block amount = Inr st'"
    and hist: "GetCacheHistory (feecache st) p = Inr items"
    and dist: "distinct (map fst items)"
    and block: "int32_range block"
  shows "\<exists>items'. GetCacheHistory (feecache st') p = Inr items' \<and> distinct (map fst items')"
proof -
  let ?c = "int32_wrap (block - MAX_STATE_HISTORY env)"
  let ?d = "exodus_debug_fees env"
  define current where "current = (if items \<noteq> [] then snd (last items) else 0)"
  have cur: "GetCachedAmount (feecache st) p = Inr current"
    using hist by (simp add: GetCachedAmount_of_history current_def)
  from AddFee_Inr_write [OF run cur] obtain stw where
    stw: "feecache stw = feecache st" "AddFee_write env stw p block current amount = Inr st'"
    by blast
  have hist': "GetCacheHistory (feecache stw) p = Inr items"
    using hist stw(1) by simp
  define new where "new = int64_wrap (current + amount)"
  from AddFee_write_result [OF hist' block, of current amount env] obtain db_w where
    w: "GetCacheHistory db_w p = Inr (replace_entry items block new)"
    and r: "AddFee_write env stw p block current amount
              = (case PruneCache env db_w p block of
                   Inl e \<Rightarrow> Inl e
                 | Inr db \<Rightarrow> EvalCache env (stw\<lparr>feecache := db\<rparr>) p block)"
    unfolding new_def by blast
  from PruneCache_result [OF w, of env block] obtain db2 where
    p2: "PruneCache env db_w p block = Inr db2"
    and h2: "GetCacheHistory db2 p = Inr (prune_kept ?d ?c (replace_entry items block new))"
    by blast
  let ?items2 = "prune_kept ?d ?c (replace_entry items block new)"
  have d2: "distinct (map fst ?items2)"
    by (rule distinct_fst_prune_kept, rule distinct_fst_replace_entry, rule dist)
  from stw(2) r p2 have "EvalCache env (stw\<lparr>feecache := db2\<rparr>) p block = Inr st'"
    by simp
  from EvalCache_Inr [OF this]
  have "feecache st' = db2 \<or> ClearCache env db2 p block = Inr (feecache st')"
    by simp
  then show ?thesis
  proof
    assume "feecache st' = db2"
    with h2 d2 show ?thesis by simp
  next
    assume cl: "ClearCache env db2 p block = Inr (feecache st')"
    from ClearCache_result [OF h2 block, of env] cl
    have "GetCacheHistory (feecache st') p
            = Inr (prune_kept ?d ?c (replace_entry ?items2 block 0))"
      by auto
    moreover have "distinct (map fst (prune_kept ?d ?c (replace_entry ?items2 block 0)))"
      by (rule distinct_fst_prune_kept, rule distinct_fst_replace_entry, rule d2)
    ultimately show ?thesis by blast
  qed
qed

lemma AddFee_calls_distinct_heights:
  assumes "AddFee_calls env st p calls = Inr st'"
    and "GetCacheHistory (feecache st) p = Inr items"
    and "distinct (map fst items)"
    and "\<forall>c\<in>set calls. int32_range (fst c)"
  shows "\<exists>items'. GetCacheHistory (feecache st') p = Inr items' \<and> distinct (map fst items')"
  using assms
proof (induction calls arbitrary: st items)
  case Nil
  then show ?case by simp
next
  case (Cons c calls)
  obtain block amount where c: "c = (block, amount)" by (cases c)
  from Cons.prems(1) c obtain st1 where
    s1: "AddFee env st p block amount = Inr st1" and rest: "AddFee_calls env st1 p calls = Inr st'"
    by (auto split: sum.splits)
  have "int32_range block" using Cons.prems(4) c by simp
  from AddFee_keeps_distinct_heights [OF s1 Cons.prems(2,3) this] obtain items1 where
    "GetCacheHistory (feecache st1) p = Inr items1" "distinct (map fst items1)"
    by blast
  moreover have "\<forall>c\<in>set calls. int32_range (fst c)"
    using Cons.prems(4) by simp
  ultimately show ?case
    using Cons.IH [OF rest] by blast
qed

lemma AddFee_accrues:
  assumes hist: "GetCacheHistory (feecache st) p = Inr items"
    and cur: "GetCachedAmount (feecache st) p = Inr current"
    and below: "\<forall>i\<in>set items. fst i \<le> block"
    and block: "int32_range block"
    and nonneg: "0 \<le> current" "0 \<le> amount"
    and thr: "distributionThresholds st p = Some thr" "int64_range thr"
    and less: "current + amount < thr"
  shows "\<exists>st' items'. AddFee env st p block amount = Inr st' \<and>
           GetCacheHistory (feecache st') p = Inr items' \<and>
           last items' = (block, current + amount) \<and> items' \<noteq> [] \<and>
           (\<forall>i\<in>set items'. fst i \<le> block) \<and>
           (\<forall>i\<in>set items'. i = (block, current + amount) \<or> i \<in> set items \<and> fst i \<noteq> block) \<and>
           GetCachedAmount (feecache st') p = Inr (current + amount) \<and>
           distributionThresholds st' p = Some thr"
proof -
  let ?c = "int32_wrap (block - MAX_STATE_HISTORY env)"
  let ?d = "exodus_debug_fees env"
  from hist have wf: "sorted items" "distinct items" "cache_items_ok items"
    using GetCacheHistory_wf by blast+
  have small: "current + amount < 2 ^ 63"
    using less thr(2) by (simp add: int64_range_def)
  then have no: "\<not> (0 < current \<and> INT64_MAX < current + amount)"
    by (simp add: INT64_MAX_def)
  have range: "int64_range (current + amount)"
    using small nonneg by (simp add: int64_range_def)
  then have new: "int64_wrap (current + amount) = current + amount"
    by (rule int64_wrap_id)
  have run: "AddFee env st p block amount = AddFee_write env st p block current amount"
    unfolding AddFee_cases [OF cur] by (simp only: no if_False)
  from AddFee_write_result [OF hist block, of current amount env] obtain db_w where
    w: "GetCacheHistory db_w p = Inr (replace_entry items block (current + amount))"
    and r: "AddFee_write env st p block current amount
              = (case PruneCache env db_w p block of
                   Inl e \<Rightarrow> Inl e
                 | Inr db \<Rightarrow> EvalCache env (st\<lparr>feecache := db\<rparr>) p block)"
    unfolding new by blast
  let ?items1 = "replace_entry items block (current + amount)"
  let ?items2 = "prune_kept ?d ?c ?items1"
  from PruneCache_result [OF w, of env block] obtain db2 where
    p2: "PruneCache env db_w p block = Inr db2" and h2: "GetCacheHistory db2 p = Inr ?items2"
    by blast
  have wf1: "sorted ?items1"
    using replace_entry_wf [OF wf block range] by simp
  have ne1: "?items1 \<noteq> []" by (rule replace_entry_ne)
  have ne2: "?items2 \<noteq> []" using ne1 by (rule prune_kept_ne)
  have "last ?items2 = last ?items1"
    using wf1 ne1 by (rule prune_kept_last)
  also have "\<dots> = (block, current + amount)"
    using wf block range below by (rule replace_entry_last_new)
  finally have last2: "last ?items2 = (block, current + amount)" .
  have from1: "\<forall>i\<in>set ?items2. i = (block, current + amount) \<or> i \<in> set items \<and> fst i \<noteq> block"
  proof
    fix i assume "i \<in> set ?items2"
    then have "i \<in> set ?items1"
      using prune_kept_subset by blast
    then show "i = (block, current + amount) \<or> i \<in> set items \<and> fst i \<noteq> block"
      by (simp add: set_replace_entry)
  qed
  have below2: "\<forall>i\<in>set ?items2. fst i \<le> block"
  proof
    fix i assume "i \<in> set ?items2"
    with from1 have "i = (block, current + amount) \<or> i \<in> set items \<and> fst i \<noteq> block"
      by (rule bspec)
    then show "fst i \<le> block"
      using below by auto
  qed
  have cur2: "GetCachedAmount db2 p = Inr (current + amount)"
    using h2 ne2 last2 by (simp add: GetCachedAmount_def)
  let ?st2 = "st\<lparr>feecache := db2\<rparr>"
  have "thresholds_at ?st2 p = (thr, ?st2)"
    using thr(1) by (simp add: thresholds_at_def)
  then have "EvalCache env ?st2 p block = Inr ?st2"
    using cur2 less by (simp add: EvalCache_def)
  then have "AddFee env st p block amount = Inr ?st2"
    using run r p2 by simp
  moreover have "GetCacheHistory (feecache ?st2) p = Inr ?items2"
    using h2 by simp
  moreover have "GetCachedAmount (feecache ?st2) p = Inr (current + amount)"
    using cur2 by simp
  moreover have "distributionThresholds ?st2 p = Some thr"
    using thr(1) by simp
  ultimately show ?thesis
    using last2 ne2 below2 from1 by blast
qed

lemma AddFee_calls_running_total:
  assumes "GetCacheHistory (feecache st) p = Inr items"
    and "GetCachedAmount (feecache st) p = Inr current"
    and "\<forall>i\<in>set items. \<forall>c\<in>set calls. fst i \<le> fst c"
    and "sorted (map fst calls)"
    and "\<forall>c\<in>set calls. int32_range (fst c) \<and> 0 \<le> snd c"
    and "0 \<le> current"
    and "distributionThresholds st p = Some thr" and "int64_range thr"
    and "current + sum_list (map snd calls) < thr"
    and "calls \<noteq> []"
  shows "\<exists>st' items'. AddFee_calls env st p calls = Inr st' \<and>
           GetCacheHistory (feecache st') p = Inr items' \<and> items' \<noteq> [] \<and>
           last items' = (fst (last calls), current + sum_list (map snd calls)) \<and>
           GetCachedAmount (feecache st') p = Inr (current + sum_list (map snd calls))"
  using assms
proof (induction calls arbitrary: st items current)
  case Nil
  then show ?case by simp
next
  case (Cons c calls)
  obtain block amount where c: "c = (block, amount)" by (cases c)
  have rest_nonneg: "0 \<le> sum_list (map snd calls)"
    using Cons.prems(5) by (intro sum_list_nonneg) auto
  have amount: "0 \<le> amount" and block: "int32_range block"
    using Cons.prems(5) c by simp_all
  have less: "current + amount < thr"
    using Cons.prems(9) rest_nonneg c by simp
  have below: "\<forall>i\<in>set items. fst i \<le> block"
    using Cons.prems(3) c by simp
  from AddFee_accrues [OF Cons.prems(1,2) below block Cons.prems(6) amount Cons.prems(7,8) less, of env]
  obtain st1 items1 where
    s1: "AddFee env st p block amount = Inr st1"
    and h1: "GetCacheHistory (feecache st1) p = Inr items1"
    and l1: "last items1 = (block, current + amount)" "items1 \<noteq> []"
    and b1: "\<forall>i\<in>set items1. fst i \<le> block"
    and c1: "GetCachedAmount (feecache st1) p = Inr (current + amount)"
    and t1: "distributionThresholds st1 p = Some thr"
    by blast
  show ?case
  proof (cases "calls = []")
    case True
    with s1 h1 l1 c1 c show ?thesis by simp
  next
    case False
    have sorted_rest: "sorted (map fst calls)" and first: "\<forall>c'\<in>set calls. block \<le> fst c'"
      using Cons.prems(4) c by simp_all
    have b1': "\<forall>i\<in>set items1. \<forall>c\<in>set calls. fst i \<le> fst c"
      using b1 first by fastforce
    have r1: "\<forall>c\<in>set calls. int32_range (fst c) \<and> 0 \<le> snd c"
      using Cons.prems(5) by simp
    have n1: "0 \<le> current + amount"
      using Cons.prems(6) amount by simp
    have less1: "current + amount + sum_list (map snd calls) < thr"
      using Cons.prems(9) c by (simp add: add.assoc)
    from Cons.IH [OF h1 c1 b1' sorted_rest r1 n1 t1 Cons.prems(8) less1 False]
    obtain st' items' where
      "AddFee_calls env st1 p calls = Inr st'"
      "GetCacheHistory (feecache st') p = Inr items'" "items' \<noteq> []"
      "last items' = (fst (last calls), current + amount + sum_list (map snd calls))"
      "GetCachedAmount (feecache st') p = Inr (current + amount + sum_list (map snd calls))"
      by blast
    then show ?thesis
      using s1 c False by (simp add: add.assoc)
  qed
qed

lemma example_threshold_state:
  "GetCacheHistory (feecache example_state_threshold) 3 = Inr []"
  "GetCachedAmount (feecache example_state_threshold) 3 = Inr 0"
  "distributionThresholds example_state_threshold 3 = Some 100"
  by (simp_all add: example_state_threshold_def UpdateDistributionThresholds_def example_state_def
      example_env_def GetCachedAmount_def GetCacheHistory_def db_get_def signed_divide_int_def)

lemma example_two_fees:
  "returned_cache (AddFee_calls example_env example_state_threshold 3 [(100, 50)])
     = Some [(''0000000003'', ''100:50'')]"
  "returned_cache (AddFee_calls example_env example_state_threshold 3 [(100, 50), (100, 20)])
     = Some [(''0000000003'', ''100:70'')]"
  by code_simp+

lemma example_two_fees_history:
  "GetCacheHistory [(''0000000003'', ''100:70'')] 3 = Inr [(100, 70)]"
proof -
  have "case GetCacheHistory [(''0000000003'', ''100:70'')] 3 of
          Inl e \<Rightarrow> False | Inr v \<Rightarrow> v = [(100, 70)]"
    by code_simp
  then show ?thesis
    by (simp split: sum.splits)
qed

lemma running_total_first:
  assumes "sorted (map fst ((block, amount) # calls))" and "b \<in> fst ` set calls"
  shows "running_total current ((block, amount) # calls) b = running_total (current + amount) calls b"
proof -
  from assms have "block \<le> b" by auto
  then show ?thesis
    by (simp add: running_total_def)
qed

lemma running_total_only:
  assumes "sorted (map fst ((block, amount) # calls))" and "block \<notin> fst ` set calls"
  shows "running_total current ((block, amount) # calls) block = current + amount"
proof -
  have "filter (\<lambda>c. fst c \<le> block) calls = []"
  proof (rule ccontr)
    assume "filter (\<lambda>c. fst c \<le> block) calls \<noteq> []"
    then obtain c where c: "c \<in> set calls" "fst c \<le> block"
      by (auto simp: filter_empty_conv)
    with assms(1) have "block \<le> fst c" by auto
    with c have "fst c = block" by simp
    with c(1) assms(2) show False by force
  qed
  then show ?thesis
    by (simp add: running_total_def)
qed

lemma running_total_last:
  assumes "sorted (map fst calls)" and "calls \<noteq> []"
  shows "running_total current calls (fst (last calls)) = current + sum_list (map snd calls)"
proof -
  have "\<forall>c\<in>set calls. fst c \<le> fst (last calls)"
  proof
    fix c assume "c \<in> set calls"
    then obtain n where n: "n < length calls" "calls ! n = c"
      by (auto simp: in_set_conv_nth)
    have "map fst calls ! n \<le> map fst calls ! (length calls - 1)"
      using assms(1) n(1) by (intro sorted_nth_mono) simp_all
    then show "fst c \<le> fst (last calls)"
      using n assms(2) by (simp add: last_conv_nth)
  qed
  then have "filter (\<lambda>c. fst c \<le> fst (last calls)) calls = calls"
    by (simp add: filter_id_conv)
  then show ?thesis
    by (simp add: running_total_def)
qed

lemma AddFee_calls_entries:
  assumes "GetCacheHistory (feecache st) p = Inr items"
    and "GetCachedAmount (feecache st) p = Inr current"
    and "\<forall>i\<in>set items. \<forall>c\<in>set calls. fst i \<le> fst c"
    and "sorted (map fst calls)"
    and "\<forall>c\<in>set calls. int32_range (fst c) \<and> 0 \<le> snd c"
    and "0 \<le> current"
    and "distributionThresholds st p = Some thr" and "int64_range thr"
    and "current + sum_list (map snd calls) < thr"
  shows "\<exists>st' items'. AddFee_calls env st p calls = Inr st' \<and>
           GetCacheHistory (feecache st') p = Inr items' \<and>
           (\<forall>i\<in>set items'.
              if fst i \<in> fst ` set calls then snd i = running_total current calls (fst i)
              else i \<in> set items)"
  using assms
proof (induction calls arbitrary: st items current)
  case Nil
  then show ?case by simp
next
  case (Cons c calls)
  obtain block amount where c: "c = (block, amount)" by (cases c)
  have rest_nonneg: "0 \<le> sum_list (map snd calls)"
    using Cons.prems(5) by (intro sum_list_nonneg) auto
  have amount: "0 \<le> amount" and block: "int32_range block"
    using Cons.prems(5) c by simp_all
  have less: "current + amount < thr"
    using Cons.prems(9) rest_nonneg c by simp
  have below: "\<forall>i\<in>set items. fst i \<le> block"
    using Cons.prems(3) c by simp
  from AddFee_accrues [OF Cons.prems(1,2) below block Cons.prems(6) amount Cons.prems(7,8) less, of env]
  obtain st1 items1 where
    s1: "AddFee env st p block amount = Inr st1"
    and h1: "GetCacheHistory (feecache st1) p = Inr items1"
    and b1: "\<forall>i\<in>set items1. fst i \<le> block"
    and f1: "\<forall>i\<in>set items1. i = (block, current + amount) \<or> i \<in> set items \<and> fst i \<noteq> block"
    and c1: "GetCachedAmount (feecache st1) p = Inr (current + amount)"
    and t1: "distributionThresholds st1 p = Some thr"
    by blast
  have sorted_all: "sorted (map fst ((block, amount) # calls))"
    using Cons.prems(4) c by simp
  have sorted_rest: "sorted (map fst calls)" and first: "\<forall>c'\<in>set calls. block \<le> fst c'"
    using Cons.prems(4) c by simp_all
  have b1': "\<forall>i\<in>set items1. \<forall>c\<in>set calls. fst i \<le> fst c"
    using b1 first by fastforce
  have r1: "\<forall>c\<in>set calls. int32_range (fst c) \<and> 0 \<le> snd c"
    using Cons.prems(5) by simp
  have n1: "0 \<le> current + amount"
    using Cons.prems(6) amount by simp
  have less1: "current + amount + sum_list (map snd calls) < thr"
    using Cons.prems(9) c by (simp add: add.assoc)
  from Cons.IH [OF h1 c1 b1' sorted_rest r1 n1 t1 Cons.prems(8) less1]
  obtain st' items' where
    run: "AddFee_calls env st1 p calls = Inr st'"
    and h: "GetCacheHistory (feecache st') p = Inr items'"
    and e: "\<forall>i\<in>set items'.
              if fst i \<in> fst ` set calls then snd i = running_total (current + amount) calls (fst i)
              else i \<in> set items1"
    by blast
  have "\<forall>i\<in>set items'.
          if fst i \<in> fst ` set (c # calls) then snd i = running_total current (c # calls) (fst i)
          else i \<in> set items"
  proof
    fix i assume i: "i \<in> set items'"
    show "if fst i \<in> fst ` set (c # calls) then snd i = running_total current (c # calls) (fst i)
          else i \<in> set items"
    proof (cases "fst i \<in> fst ` set calls")
      case True
      with e i have "snd i = running_total (current + amount) calls (fst i)"
        by auto
      also have "\<dots> = running_total current ((block, amount) # calls) (fst i)"
        using running_total_first [OF sorted_all True] by simp
      finally show ?thesis
        using True c by simp
    next
      case False
      with e i have i1: "i \<in> set items1" by auto
      with f1 have "i = (block, current + amount) \<or> i \<in> set items \<and> fst i \<noteq> block"
        by (rule bspec)
      then show ?thesis
      proof
        assume eq: "i = (block, current + amount)"
        with False have "block \<notin> fst ` set calls" by simp
        from running_total_only [OF sorted_all this]
        have "running_total current ((block, amount) # calls) block = current + amount" .
        with eq c show ?thesis by simp
      next
        assume "i \<in> set items \<and> fst i \<noteq> block"
        with False c show ?thesis by simp
      qed
    qed
  qed
  moreover have "AddFee_calls env st p (c # calls) = Inr st'"
    using s1 run c by simp
  ultimately show ?case
    using h by blast
qed


lemma example_fees_no_threshold:
  "returned_cache (AddFee_calls example_env example_state 3 [(100, 50), (100, 20)])
     = Some [(''0000000003'', ''100:0'')]"
  by code_simp

lemma example_fees_out_of_order:
  "returned_cache (AddFee_calls example_env example_state_threshold 3 [(200, 50), (100, 20), (300, 1)])
     = Some [(''0000000003'', ''100:70,200:50,300:51'')]"
  by code_simp

lemma example_fees_crossing:
  "returned_cache (AddFee_calls example_env example_state_threshold 3 [(200, 60), (201, 45)])
     = Some [(''0000000003'', ''200:60,201:0'')]"
  by code_simp

lemma example_fees_three:
  "returned_cache (AddFee_calls example_env example_state_threshold 3 [(100, 50), (100, 20), (101, 10)])
     = Some [(''0000000003'', ''100:70,101:80'')]"
  by code_simp

lemma example_fees_histories:
  "GetCacheHistory [(''0000000003'', ''100:0'')] 3 = Inr [(100, 0)]"
  "GetCacheHistory [(''0000000003'', ''100:70,200:50,300:51'')] 3 = Inr [(100, 70), (200, 50), (300, 51)]"
  "GetCacheHistory [(''0000000003'', ''200:60,201:0'')] 3 = Inr [(200, 60), (201, 0)]"
  "GetCacheHistory [(''0000000003'', ''100:70,101:80'')] 3 = Inr [(100, 70), (101, 80)]"
proof -
  have "case GetCacheHistory [(''0000000003'', ''100:0'')] 3 of
          Inl e \<Rightarrow> False | Inr v \<Rightarrow> v = [(100, 0)]"
    by code_simp
  then show "GetCacheHistory [(''0000000003'', ''100:0'')] 3 = Inr [(100, 0)]"
    by (simp split: sum.splits)
  have "case GetCacheHistory [(''0000000003'', ''100:70,200:50,300:51'')] 3 of
          Inl e \<Rightarrow> False | Inr v \<Rightarrow> v = [(100, 70), (200, 50), (300, 51)]"
    by code_simp
  then show "GetCacheHistory [(''0000000003'', ''100:70,200:50,300:51'')] 3
               = Inr [(100, 70), (200, 50), (300, 51)]"
    by (simp split: sum.splits)
  have "case GetCacheHistory [(''0000000003'', ''200:60,201:0'')] 3 of
          Inl e \<Rightarrow> False | Inr v \<Rightarrow> v = [(200, 60), (201, 0)]"
    by code_simp
  then show "GetCacheHistory [(''0000000003'', ''200:60,201:0'')] 3 = Inr [(200, 60), (201, 0)]"
    by (simp split: sum.splits)
  have "case GetCacheHistory [(''0000000003'', ''100:70,101:80'')] 3 of
          Inl e \<Rightarrow> False | Inr v \<Rightarrow> v = [(100, 70), (101, 80)]"
    by code_simp
  then show "GetCacheHistory [(''0000000003'', ''100:70,101:80'')] 3 = Inr [(100, 70), (101, 80)]"
    by (simp split: sum.splits)
qed

lemma example_state_no_threshold: "distributionThresholds example_state 3 = None"
  by (simp add: example_state_def)

section \<open>The claims\<close>

text \<open>
  Claim C3. PruneCache(propertyId, block) with cutoff = block - MAX_STATE_HISTORY is to
  remove every entry below the cutoff. With \<open>exodus_debug_fees\<close> off the code removes
  nothing: for the history (100, 5), (200, 7), block 200 and a window of 50 blocks the
  cutoff is 150, and the entry of block 100 is written back. With the switch on, the same
  call removes it.
\<close>

theorem PruneCache_debug_off_keeps_matured:
  "MAX_STATE_HISTORY example_env = 50 \<and> \<not> exodus_debug_fees example_env \<and>
   (100 :: int) < 200 - MAX_STATE_HISTORY example_env \<and>
   GetCacheHistory example_cache 3 = Inr [(100, 5), (200, 7)] \<and>
   PruneCache example_env example_cache 3 200 = Inr [(''0000000003'', ''100:5,200:7'')] \<and>
   GetCacheHistory [(''0000000003'', ''100:5,200:7'')] 3 = Inr [(100, 5), (200, 7)] \<and>
   exodus_debug_fees example_env_debug \<and>
   PruneCache example_env_debug example_cache 3 200 = Inr [(''0000000003'', ''200:7'')]"
proof -
  have "case PruneCache example_env example_cache 3 200 of
          Inl e \<Rightarrow> False | Inr db \<Rightarrow> db = [(''0000000003'', ''100:5,200:7'')]"
    by code_simp
  then have off: "PruneCache example_env example_cache 3 200 = Inr [(''0000000003'', ''100:5,200:7'')]"
    by (simp split: sum.splits)
  have "case PruneCache example_env_debug example_cache 3 200 of
          Inl e \<Rightarrow> False | Inr db \<Rightarrow> db = [(''0000000003'', ''200:7'')]"
    by code_simp
  then have on: "PruneCache example_env_debug example_cache 3 200 = Inr [(''0000000003'', ''200:7'')]"
    by (simp split: sum.splits)
  have "GetCacheHistory [(''0000000003'', ''100:5,200:7'')] 3 = Inr [(100, 5), (200, 7)]"
    using example_cache_history by (simp add: example_cache_def)
  with off on show ?thesis
    using example_cache_history by (simp add: example_env_def example_env_debug_def)
qed

text \<open>
  Claim C4. Pruning never deletes the most recent entry: whatever the history of a
  property and whatever the block passed to PruneCache, the call returns, the entry with
  the greatest block height (the last of the set) is still the last entry afterwards, and
  so the current cached amount is what it was.
\<close>

theorem PruneCache_keeps_most_recent:
  assumes "GetCacheHistory db p = Inr items" and "items \<noteq> []"
  shows "\<exists>db' items'. PruneCache env db p block = Inr db' \<and>
           GetCacheHistory db' p = Inr items' \<and>
           (\<forall>i\<in>set items. fst i \<le> fst (last items)) \<and>
           last items \<in> set items' \<and> last items' = last items \<and>
           GetCachedAmount db' p = GetCachedAmount db p"
proof -
  let ?c = "int32_wrap (block - MAX_STATE_HISTORY env)"
  let ?items' = "prune_kept (exodus_debug_fees env) ?c items"
  from assms(1) have sorted: "sorted items"
    using GetCacheHistory_wf by blast
  obtain db' where db': "PruneCache env db p block = Inr db'"
      "GetCacheHistory db' p = Inr ?items'"
    using PruneCache_result [OF assms(1)] by blast
  have ne: "?items' \<noteq> []"
    using assms(2) by (rule prune_kept_ne)
  have last: "last ?items' = last items"
    using sorted assms(2) by (rule prune_kept_last)
  have "last ?items' \<in> set ?items'"
    using ne by (rule last_in_set)
  with last have mem: "last items \<in> set ?items'" by simp
  have "GetCachedAmount db' p = GetCachedAmount db p"
    using db'(2) assms ne last by (simp add: GetCachedAmount_def)
  moreover have "\<forall>i\<in>set items. fst i \<le> fst (last items)"
    using sorted by (auto intro: sorted_fst_le_last)
  ultimately show ?thesis
    using db' mem last by blast
qed

theorem PruneCache_keeps_most_recent_witness:
  "GetCacheHistory example_cache 3 = Inr [(100, 5), (200, 7)] \<and>
   [(100, 5), (200, 7)] \<noteq> ([] :: feeCacheItem list) \<and>
   (\<exists>db' items'. PruneCache example_env_debug example_cache 3 1000 = Inr db' \<and>
      GetCacheHistory db' 3 = Inr items' \<and>
      (\<forall>i\<in>set [(100, 5), (200, 7 :: int)]. fst i \<le> fst (last [(100 :: int, 5), (200, 7 :: int)])) \<and>
      last [(100, 5), (200, 7)] \<in> set items' \<and> last items' = last [(100, 5), (200, 7)] \<and>
      GetCachedAmount db' 3 = GetCachedAmount example_cache 3)"
  using PruneCache_keeps_most_recent [OF example_cache_history, of example_env_debug 1000]
    example_cache_history by simp

text \<open>
  Claim C5, as stated: GetDistributionThreshold(p) equals max(1, totalSupply(p) /
  FEE_THRESHOLD_DIVISOR) for every property, and is never zero. It fails for a property
  whose threshold was never stored: the map lookup adds the key with value 0.
\<close>

theorem GetDistributionThreshold_counterexample:
  "fst (GetDistributionThreshold example_state 3) = 0 \<and>
   max 1 (getTotalTokens example_env 3 sdiv EXODUS_FEE_THRESHOLD example_env) = 100 \<and>
   fst (GetDistributionThreshold example_state 3)
     \<noteq> max 1 (getTotalTokens example_env 3 sdiv EXODUS_FEE_THRESHOLD example_env)"
  by (simp add: GetDistributionThreshold_def thresholds_at_def example_state_def example_env_def
      signed_divide_int_def)

text \<open>
  Claim C5, amended. Once UpdateDistributionThresholds(p) has run, GetDistributionThreshold(p)
  returns max(1, totalSupply(p) / EXODUS_FEE_THRESHOLD) for the supply at that moment (the
  division of C++, which is the rounded-down one for a supply that is not negative), so
  at least 1, and the lookup that EvalCache compares with reads the same value.
\<close>

theorem threshold_after_update:
  assumes "0 < EXODUS_FEE_THRESHOLD env"
  shows "fst (GetDistributionThreshold (UpdateDistributionThresholds env st p) p)
           = max 1 (getTotalTokens env p sdiv EXODUS_FEE_THRESHOLD env) \<and>
         1 \<le> fst (GetDistributionThreshold (UpdateDistributionThresholds env st p) p) \<and>
         thresholds_at (UpdateDistributionThresholds env st p) p
           = GetDistributionThreshold (UpdateDistributionThresholds env st p) p \<and>
         snd (thresholds_at (UpdateDistributionThresholds env st p) p)
           = UpdateDistributionThresholds env st p \<and>
         (0 \<le> getTotalTokens env p \<longrightarrow>
            fst (GetDistributionThreshold (UpdateDistributionThresholds env st p) p)
              = max 1 (getTotalTokens env p div EXODUS_FEE_THRESHOLD env))"
proof -
  have "0 \<le> getTotalTokens env p \<Longrightarrow>
          getTotalTokens env p sdiv EXODUS_FEE_THRESHOLD env
            = getTotalTokens env p div EXODUS_FEE_THRESHOLD env"
    using assms by (simp add: signed_divide_int_def sgn_if)
  then show ?thesis
    by (auto simp: GetDistributionThreshold_def thresholds_at_def UpdateDistributionThresholds_def
        Let_def max_def)
qed

theorem threshold_after_update_witness:
  "0 < EXODUS_FEE_THRESHOLD example_env \<and>
   fst (GetDistributionThreshold (UpdateDistributionThresholds example_env example_state 3) 3) = 100 \<and>
   max 1 (getTotalTokens example_env 3 sdiv EXODUS_FEE_THRESHOLD example_env) = 100 \<and>
   max 1 (getTotalTokens example_env 3 div EXODUS_FEE_THRESHOLD example_env) = 100"
  using threshold_after_update [of example_env example_state 3]
  by (simp add: example_env_def signed_divide_int_def)

text \<open>
  Claim C7. RollBackHistory(block) deletes exactly the records whose stored block height
  is at or after the block; every other record (a record of an earlier block, and a record
  that does not split into four fields) stays in the table with its key and its content.
  The scan returns when no record with four fields has a first field that is not a number.
\<close>

theorem RollBackHistory_deletes_exactly:
  assumes "distinct (map fst db)" and "\<forall>r\<in>set db. \<not> record_throws (snd r)"
  shows "RollBackHistory db block = Inr (filter (\<lambda>r. \<not> rolled_back block (snd r)) db)"
proof -
  have "filter (\<lambda>r. fst r \<notin> fst ` {r' \<in> set db. rolled_back block (snd r')}) db
          = filter (\<lambda>r. \<not> rolled_back block (snd r)) db"
  proof (rule filter_cong [OF refl])
    fix r assume r: "r \<in> set db"
    have uniq: "r' = r" if "r' \<in> set db" "fst r' = fst r" for r'
      using that r assms(1) by (metis eq_key_imp_eq_value prod.collapse)
    have "fst r \<in> fst ` {r' \<in> set db. rolled_back block (snd r')} \<longleftrightarrow> rolled_back block (snd r)"
    proof
      assume "fst r \<in> fst ` {r' \<in> set db. rolled_back block (snd r')}"
      then obtain r' where r': "r' \<in> set db" "rolled_back block (snd r')" "fst r' = fst r"
        by force
      then have "r' = r" using uniq by blast
      with r' show "rolled_back block (snd r)" by simp
    next
      assume "rolled_back block (snd r)"
      with r show "fst r \<in> fst ` {r' \<in> set db. rolled_back block (snd r')}"
        by blast
    qed
    then show "(fst r \<notin> fst ` {r' \<in> set db. rolled_back block (snd r')})
                   = (\<not> rolled_back block (snd r))"
      by simp
  qed
  then show ?thesis
    using RollBackHistory_scan_result [OF assms(2), of block db]
    by (simp add: RollBackHistory_def)
qed

theorem RollBackHistory_deletes_exactly_witness:
  "distinct (map fst example_history) \<and>
   \<not> record_throws ''100:3:50:addrA=20,addrB=30'' \<and> \<not> record_throws ''500:3:70:'' \<and>
   \<not> record_throws ''bad'' \<and>
   example_history = [(''1'', ''100:3:50:addrA=20,addrB=30''), (''2'', ''500:3:70:''), (''3'', ''bad'')] \<and>
   RollBackHistory example_history 500 = Inr [(''1'', ''100:3:50:addrA=20,addrB=30''), (''3'', ''bad'')]"
proof -
  have d: "distinct (map fst example_history)"
    by (simp add: example_history_def)
  have t: "\<not> record_throws ''100:3:50:addrA=20,addrB=30''" "\<not> record_throws ''500:3:70:''"
      "\<not> record_throws ''bad''"
    by (simp_all add: record_throws_def example_history_stored_blocks)
  then have t': "\<forall>r\<in>set example_history. \<not> record_throws (snd r)"
    by (simp add: example_history_def)
  have "RollBackHistory example_history 500
          = Inr [(''1'', ''100:3:50:addrA=20,addrB=30''), (''3'', ''bad'')]"
    using RollBackHistory_deletes_exactly [OF d t', of 500]
    by (simp add: example_history_def rolled_back_def example_history_stored_blocks)
  with d t show ?thesis
    by (simp add: example_history_def)
qed

text \<open>
  Claim C9. Writing a fee history record with RecordFeeDistribution and reading it back
  under the sequence id it was given, with GetDistributionData and GetFeeDistribution,
  gives back the property id, the block, the total and the set of (address, amount)
  pairs, for any number of recipients, whenever the values fit their C++ types and no
  address contains one of the delimiters of the record.
\<close>

theorem fee_history_roundtrip:
  assumes "propertyId < 2 ^ 32" and "int32_range block" and "int64_range total_amount"
    and "\<forall>r\<in>set recipients. plain_address (fst r) \<and> int64_range (snd r)"
  shows "GetDistributionData (RecordFeeDistribution db propertyId block total_amount recipients)
           (CountRecords db + 1) = Inr (Some (propertyId, block, total_amount)) \<and>
         GetFeeDistribution (RecordFeeDistribution db propertyId block total_amount recipients)
           (CountRecords db + 1) = Inr (sorted_list_of_set (set recipients))"
  using assms by (simp add: GetDistributionData_written GetFeeDistribution_written)

theorem fee_history_roundtrip_witness:
  "(7 :: nat) < 2 ^ 32 \<and> int32_range 201 \<and> int64_range 105 \<and>
   plain_address ''addrA'' \<and> int64_range 52 \<and> plain_address ''addrB'' \<and> int64_range 53 \<and>
   GetDistributionData (RecordFeeDistribution example_history 7 201 105 [(''addrA'', 52), (''addrB'', 53)])
     (CountRecords example_history + 1) = Inr (Some (7, 201, 105)) \<and>
   GetFeeDistribution (RecordFeeDistribution example_history 7 201 105 [(''addrA'', 52), (''addrB'', 53)])
     (CountRecords example_history + 1) = Inr (sorted_list_of_set (set [(''addrA'', 52), (''addrB'', 53)]))"
proof -
  have a: "plain_address ''addrA''" "int64_range 52" "plain_address ''addrB''" "int64_range 53"
    by (simp_all add: plain_address_def int64_range_def)
  then have h: "\<forall>r\<in>set [(''addrA'', 52 :: int), (''addrB'', 53)]. plain_address (fst r) \<and> int64_range (snd r)"
    by simp
  have r: "int32_range 201" "int64_range 105"
    by (simp_all add: int32_range_def int64_range_def)
  have p: "(7 :: nat) < 2 ^ 32"
    by simp
  from fee_history_roundtrip [OF p r h, of example_history] p r a
  show ?thesis
    by blast
qed

text \<open>
  Claim C6. RollBackCache(block) leaves, for every known property, exactly the history
  entries with height < block: those with height >= block are discarded and the others
  kept. A second RollBackCache(block) on the result changes nothing. The call returns
  when the stored histories of the known properties can be read.
\<close>

theorem RollBackCache_exact_and_idempotent:
  assumes "\<forall>p\<in>set (known_properties env). \<exists>items. GetCacheHistory db p = Inr items"
  shows "\<exists>db'. RollBackCache env db block = Inr db' \<and>
           (\<forall>p\<in>set (known_properties env). \<forall>items. GetCacheHistory db p = Inr items \<longrightarrow>
              GetCacheHistory db' p = Inr (filter (\<lambda>i. fst i < block) items)) \<and>
           RollBackCache env db' block = Inr db'"
proof -
  from RollBackCache_loop_result [OF assms, of block]
  obtain db' where db': "RollBackCache_loop block (known_properties env) db = Inr db'"
    "\<And>q items. GetCacheHistory db q = Inr items \<Longrightarrow>
       GetCacheHistory db' q
         = Inr (if q \<in> set (known_properties env) then filter (\<lambda>i. fst i < block) items else items)"
    by blast
  have "\<forall>p\<in>set (known_properties env).
          \<exists>items. GetCacheHistory db' p = Inr items \<and> (\<forall>i\<in>set items. fst i < block)"
  proof
    fix p assume p: "p \<in> set (known_properties env)"
    with assms obtain items where "GetCacheHistory db p = Inr items" by auto
    from db'(2) [OF this] p
    have "GetCacheHistory db' p = Inr (filter (\<lambda>i. fst i < block) items)" by simp
    then show "\<exists>items. GetCacheHistory db' p = Inr items \<and> (\<forall>i\<in>set items. fst i < block)"
      by auto
  qed
  then have "RollBackCache_loop block (known_properties env) db' = Inr db'"
    by (rule RollBackCache_loop_noop)
  with db' show ?thesis
    by (auto simp: RollBackCache_def known_properties_def)
qed

theorem RollBackCache_exact_and_idempotent_witness:
  "known_properties example_env = [1, 2, 3, 4, 10, 11] \<and>
   GetCacheHistory example_cache 1 = Inr [] \<and> GetCacheHistory example_cache 2 = Inr [] \<and>
   GetCacheHistory example_cache 3 = Inr [(100, 5), (200, 7)] \<and>
   GetCacheHistory example_cache 4 = Inr [] \<and> GetCacheHistory example_cache 10 = Inr [] \<and>
   GetCacheHistory example_cache 11 = Inr [] \<and>
   (\<exists>db'. RollBackCache example_env example_cache 150 = Inr db' \<and>
      GetCacheHistory db' 3 = Inr [(100, 5)] \<and>
      RollBackCache example_env db' 150 = Inr db')"
proof -
  have k: "known_properties example_env = [1, 2, 3, 4, 10, 11]"
    by code_simp
  have "list_all (\<lambda>p. case GetCacheHistory example_cache p of Inl e \<Rightarrow> False | Inr items \<Rightarrow> items = [])
          [1, 2, 4, 10, 11]"
    by code_simp
  then have e: "GetCacheHistory example_cache 1 = Inr []" "GetCacheHistory example_cache 2 = Inr []"
      "GetCacheHistory example_cache 4 = Inr []" "GetCacheHistory example_cache 10 = Inr []"
      "GetCacheHistory example_cache 11 = Inr []"
    by (simp_all split: sum.splits)
  have h: "\<forall>p\<in>set (known_properties example_env). \<exists>items. GetCacheHistory example_cache p = Inr items"
    unfolding k using e example_cache_history by simp
  from RollBackCache_exact_and_idempotent [OF h, of 150] obtain db' where
    db': "RollBackCache example_env example_cache 150 = Inr db'"
      "\<forall>p\<in>set (known_properties example_env). \<forall>items. GetCacheHistory example_cache p = Inr items \<longrightarrow>
         GetCacheHistory db' p = Inr (filter (\<lambda>i. fst i < 150) items)"
      "RollBackCache example_env db' 150 = Inr db'"
    by blast
  have "3 \<in> set (known_properties example_env)"
    unfolding k by simp
  with db'(2) example_cache_history
  have "GetCacheHistory db' 3 = Inr (filter (\<lambda>i. fst i < 150) [(100, 5), (200, 7)])"
    by blast
  then have "GetCacheHistory db' 3 = Inr [(100, 5)]"
    by simp
  with db' k e example_cache_history show ?thesis
    by blast
qed

text \<open>
  Claim C10, as stated: ClearCache replaces the entry of the block by (block, 0) and keeps
  all other entries. With the debug switch on, the pruning that ClearCache ends with
  discards older entries: clearing at block 1000 a history (100, 5), (200, 7) leaves
  (1000, 0) alone.
\<close>

theorem ClearCache_keeps_all_counterexample:
  "GetCacheHistory example_cache 3 = Inr [(100, 5), (200, 7)] \<and>
   ClearCache example_env_debug example_cache 3 1000 = Inr [(''0000000003'', ''1000:0'')] \<and>
   GetCacheHistory [(''0000000003'', ''1000:0'')] 3 = Inr [(1000, 0)] \<and>
   (200, 7) \<notin> set [(1000 :: int, 0 :: int)]"
  using example_cache_history example_debug_clear example_cleared_history by simp

text \<open>
  Claim C10, amended. ClearCache(propertyId, block) leaves no entry of that block other
  than (block, 0), adds no other entry, and keeps every other entry whose height is at
  or above the pruning cut-off block - MAX_STATE_HISTORY (and (block, 0) itself when the
  block is). The current cached amount afterwards is 0 when block is at or above every
  existing height; when the history has an entry above block, it is that most recent
  entry's amount, as before the call.
\<close>

theorem ClearCache_zero_only_at_latest_block:
  assumes "GetCacheHistory db p = Inr items" and "int32_range block"
  shows "\<exists>db' items'. ClearCache env db p block = Inr db' \<and>
           GetCacheHistory db' p = Inr items' \<and>
           (\<forall>i\<in>set items'. fst i = block \<longrightarrow> i = (block, 0)) \<and>
           set items' \<subseteq> insert (block, 0) {i \<in> set items. fst i \<noteq> block} \<and>
           (\<forall>i\<in>set items. fst i \<noteq> block \<and> int32_wrap (block - MAX_STATE_HISTORY env) \<le> fst i
              \<longrightarrow> i \<in> set items') \<and>
           (int32_wrap (block - MAX_STATE_HISTORY env) \<le> block \<longrightarrow> (block, 0) \<in> set items') \<and>
           ((\<forall>i\<in>set items. fst i \<le> block) \<longrightarrow> GetCachedAmount db' p = Inr 0) \<and>
           ((\<exists>i\<in>set items. block < fst i) \<longrightarrow>
              GetCachedAmount db' p = Inr (snd (last items)) \<and>
              GetCachedAmount db p = Inr (snd (last items)))"
proof -
  let ?c = "int32_wrap (block - MAX_STATE_HISTORY env)"
  let ?items1 = "replace_entry items block 0"
  let ?items' = "prune_kept (exodus_debug_fees env) ?c ?items1"
  from assms(1) have wf: "sorted items" "distinct items" "cache_items_ok items"
    using GetCacheHistory_wf by blast+
  have z: "int64_range 0" by (simp add: int64_range_def)
  have wf1: "sorted ?items1"
    using replace_entry_wf [OF wf assms(2) z] by simp
  have ne1: "?items1 \<noteq> []" by (rule replace_entry_ne)
  from ClearCache_result [OF assms, of env] obtain db' where
    db': "ClearCache env db p block = Inr db'" "GetCacheHistory db' p = Inr ?items'"
    by blast
  have sub: "set ?items' \<subseteq> insert (block, 0) {i \<in> set items. fst i \<noteq> block}"
    using prune_kept_subset [of "exodus_debug_fees env" ?c ?items1]
    by (simp add: set_replace_entry)
  then have only: "\<forall>i\<in>set ?items'. fst i = block \<longrightarrow> i = (block, 0)"
    by auto
  have keep: "\<forall>i\<in>set items. fst i \<noteq> block \<and> ?c \<le> fst i \<longrightarrow> i \<in> set ?items'"
    by (auto intro!: prune_kept_keeps simp: set_replace_entry)
  have new: "?c \<le> block \<longrightarrow> (block, 0) \<in> set ?items'"
    by (auto intro!: prune_kept_keeps simp: set_replace_entry)
  have ne': "?items' \<noteq> []"
    using ne1 by (rule prune_kept_ne)
  have last': "last ?items' = last ?items1"
    using wf1 ne1 by (rule prune_kept_last)
  have amount: "GetCachedAmount db' p = Inr (snd (last ?items1))"
    using db'(2) ne' last' by (simp add: GetCachedAmount_def)
  have zero: "GetCachedAmount db' p = Inr 0" if "\<forall>i\<in>set items. fst i \<le> block"
    using amount replace_entry_last_new [OF wf assms(2) z that] by simp
  have later: "GetCachedAmount db' p = Inr (snd (last items)) \<and>
               GetCachedAmount db p = Inr (snd (last items))" if "\<exists>i\<in>set items. block < fst i"
  proof -
    from that obtain i where i: "i \<in> set items" "block < fst i" by blast
    then have "items \<noteq> []" by auto
    then have "GetCachedAmount db p = Inr (snd (last items))"
      using assms(1) by (simp add: GetCachedAmount_def)
    then show ?thesis
      using amount replace_entry_last_later [OF wf assms(2) z i] by simp
  qed
  show ?thesis
    using db' only sub keep new zero later by blast
qed

theorem ClearCache_zero_only_at_latest_block_witness:
  "GetCacheHistory example_cache 3 = Inr [(100, 5), (200, 7)] \<and> int32_range 150 \<and>
   (\<exists>i\<in>set [(100 :: int, 5 :: int), (200, 7)]. 150 < fst i) \<and>
   (\<exists>db' items'. ClearCache example_env example_cache 3 150 = Inr db' \<and>
      GetCacheHistory db' 3 = Inr items' \<and>
      (\<forall>i\<in>set items'. fst i = 150 \<longrightarrow> i = (150, 0)) \<and>
      (100, 5) \<in> set items' \<and> (200, 7) \<in> set items' \<and> (150, 0) \<in> set items' \<and>
      GetCachedAmount db' 3 = Inr 7)"
proof -
  have r: "int32_range 150" by (simp add: int32_range_def)
  have c: "int32_wrap (150 - MAX_STATE_HISTORY example_env) = 100"
    by (simp add: example_env_def int32_wrap_def)
  from ClearCache_zero_only_at_latest_block [OF example_cache_history r, of example_env]
  obtain db' items' where
    run: "ClearCache example_env example_cache 3 150 = Inr db'" "GetCacheHistory db' 3 = Inr items'"
    and only: "\<forall>i\<in>set items'. fst i = 150 \<longrightarrow> i = (150, 0)"
    and keep: "\<forall>i\<in>set [(100 :: int, 5 :: int), (200, 7)]. fst i \<noteq> 150 \<and> 100 \<le> fst i \<longrightarrow> i \<in> set items'"
    and new: "(100 :: int) \<le> 150 \<longrightarrow> (150, 0) \<in> set items'"
    and later: "(\<exists>i\<in>set [(100 :: int, 5 :: int), (200, 7)]. 150 < fst i) \<longrightarrow>
                  GetCachedAmount db' 3 = Inr (snd (last [(100 :: int, 5 :: int), (200, 7)]))
                  \<and> GetCachedAmount example_cache 3 = Inr (snd (last [(100 :: int, 5 :: int), (200, 7)]))"
    unfolding c by blast
  have ex: "\<exists>i\<in>set [(100 :: int, 5 :: int), (200, 7)]. 150 < fst i" by simp
  from keep have k: "(100, 5) \<in> set items'" "(200, 7) \<in> set items'" by simp_all
  from new have n: "(150, 0) \<in> set items'" by simp
  from later ex have a: "GetCachedAmount db' 3 = Inr 7" by simp
  from run only k n a have "\<exists>db' items'. ClearCache example_env example_cache 3 150 = Inr db' \<and>
      GetCacheHistory db' 3 = Inr items' \<and>
      (\<forall>i\<in>set items'. fst i = 150 \<longrightarrow> i = (150, 0)) \<and>
      (100, 5) \<in> set items' \<and> (200, 7) \<in> set items' \<and> (150, 0) \<in> set items' \<and>
      GetCachedAmount db' 3 = Inr 7"
    by blast
  with example_cache_history r ex show ?thesis
    by blast
qed

text \<open>
  Claim C1, as stated: for every property and block, a DistributeCache that completes
  (the receivers' shares summing to the cached amount, every credit succeeding) leaves a
  cached amount of exactly 0. It fails when the block lies before an entry of the
  history: with the history (100, 5), (200, 7), a cached amount of 7 and the two receivers
  credited 3 and 4, DistributeCache at block 150 completes and the cached amount is still 7.
\<close>

theorem DistributeCache_zero_counterexample:
  "GetCachedAmount (feecache example_state_cached) 3 = Inr 7 \<and>
   STO_GetReceivers example_env (mp_tally_map example_state_cached) ''FEEDISTRIBUTION''
     (if isTestEcosystemProperty example_env 3 then EXODUS_PROPERTY_TEXODUS example_env
      else EXODUS_PROPERTY_EXODUS example_env) 7
   = [(3, ''addrA''), (4, ''addrB'')] \<and>
   sum_list (map fst [(3 :: int, ''addrA''), (4, ''addrB'')]) = 7 \<and>
   returned_cache (DistributeCache example_env example_state_cached 3 150)
     = Some [(''0000000003'', ''100:5,200:7,150:0'')] \<and>
   GetCachedAmount [(''0000000003'', ''100:5,200:7,150:0'')] 3 = Inr 7"
  using example_cached_amount example_receivers example_distribute_early example_early_amount
  by (simp add: example_state_cached_def)

text \<open>
  Claim C1, amended. Let the snapshot function return a receiver set whose shares sum
  exactly to the cached amount, let every balance credit succeed, and let block be at or
  above every height of the property's history. Then DistributeCache(propertyId, block)
  completes, afterwards GetCachedAmount(propertyId) is exactly 0, every address's balance
  of the property has grown by its share and the ledger by exactly the cached amount in
  total, and one FeeHistory record with that total is written under the next sequence id,
  all other records untouched. When the shares sum to any other \<open>int64_t\<close> value, the call
  ends in the failed assertion.
\<close>

theorem DistributeCache_exact:
  assumes hist: "GetCacheHistory (feecache st) p = Inr items"
    and cached: "GetCachedAmount (feecache st) p = Inr cachedAmount"
    and recv: "receivers = STO_GetReceivers env (mp_tally_map st) ''FEEDISTRIBUTION''
                 (if isTestEcosystemProperty env p then EXODUS_PROPERTY_TEXODUS env
                  else EXODUS_PROPERTY_EXODUS env) cachedAmount"
    and accepted: "\<forall>t. \<forall>r\<in>set receivers. tally_accepts env t (snd r) p (fst r)"
    and block: "int32_range block"
  shows "(sum_list (map fst receivers) = cachedAmount \<and> (\<forall>i\<in>set items. fst i \<le> block) \<longrightarrow>
           (\<exists>st'. DistributeCache env st p block = Inr st' \<and>
              GetCachedAmount (feecache st') p = Inr 0 \<and>
              (\<forall>a q. mp_tally_map st' (a, q)
                        = mp_tally_map st (a, q) + (if q = p then share_of receivers a else 0)) \<and>
              (\<Sum>a\<in>snd ` set receivers. mp_tally_map st' (a, p) - mp_tally_map st (a, p))
                = cachedAmount \<and>
              feehistory st'
                = RecordFeeDistribution (feehistory st) p block cachedAmount (recipients_of receivers) \<and>
              db_get (feehistory st') (fmt_int (CountRecords (feehistory st) + 1))
                = Some (join_with CHR '':''
                          [fmt_int block, fmt_int (int p), fmt_int cachedAmount,
                           join_with CHR '','' (map recipient_entry (recipients_of receivers))]) \<and>
              (\<forall>k. k \<noteq> fmt_int (CountRecords (feehistory st) + 1) \<longrightarrow>
                     db_get (feehistory st') k = db_get (feehistory st) k))) \<and>
         (sum_list (map fst receivers) \<noteq> cachedAmount \<and> int64_range (sum_list (map fst receivers)) \<longrightarrow>
            DistributeCache env st p block = Inl assertion_failed)"
proof (intro conjI impI)
  assume "sum_list (map fst receivers) \<noteq> cachedAmount \<and> int64_range (sum_list (map fst receivers))"
  then have "int64_wrap (sum_list (map fst receivers)) \<noteq> cachedAmount"
    by (simp add: int64_wrap_id)
  then show "DistributeCache env st p block = Inl assertion_failed"
    using DistributeCache_credits [OF cached recv accepted, of block] by simp
next
  assume a: "sum_list (map fst receivers) = cachedAmount \<and> (\<forall>i\<in>set items. fst i \<le> block)"
  have "int64_range cachedAmount"
    using cached by (rule GetCachedAmount_range)
  with a have same: "int64_wrap (sum_list (map fst receivers)) = cachedAmount"
    by (simp add: int64_wrap_id)
  from a have "\<forall>i\<in>set items. fst i \<le> block" by simp
  from ClearCache_zero [OF hist block this, of env] obtain db' where
    db': "ClearCache env (feecache st) p block = Inr db'" "GetCachedAmount db' p = Inr 0"
    by blast
  define t' where "t' = credited p (rev receivers) (mp_tally_map st)"
  define h' where
    "h' = RecordFeeDistribution (feehistory st) p block cachedAmount (recipients_of receivers)"
  define st' where "st' = st\<lparr>mp_tally_map := t', feehistory := h', feecache := db'\<rparr>"
  have f: "mp_tally_map st' = t'" "feehistory st' = h'" "feecache st' = db'"
    by (simp_all add: st'_def)
  have run: "DistributeCache env st p block = Inr st'"
    using DistributeCache_credits [OF cached recv accepted, of block] same db'(1)
    by (simp add: st'_def t'_def h'_def)
  have ledger: "t' (a, q) = mp_tally_map st (a, q) + (if q = p then share_of receivers a else 0)"
    for a q
    by (simp add: t'_def credited_at share_of_rev)
  have "(\<Sum>a\<in>snd ` set receivers. t' (a, p) - mp_tally_map st (a, p))
          = (\<Sum>a\<in>snd ` set receivers. share_of receivers a)"
    by (rule sum.cong) (simp_all add: ledger)
  also have "\<dots> = sum_list (map fst receivers)"
    by (rule share_of_total)
  finally have total: "(\<Sum>a\<in>snd ` set receivers. t' (a, p) - mp_tally_map st (a, p)) = cachedAmount"
    using a by simp
  have val: "h' = db_put (fmt_int (CountRecords (feehistory st) + 1))
                    (join_with CHR '':''
                       [fmt_int block, fmt_int (int p), fmt_int cachedAmount,
                        join_with CHR '','' (map recipient_entry (recipients_of receivers))])
                    (feehistory st)"
    unfolding h'_def by (rule RecordFeeDistribution_value)
  have rec: "db_get h' (fmt_int (CountRecords (feehistory st) + 1))
               = Some (join_with CHR '':''
                         [fmt_int block, fmt_int (int p), fmt_int cachedAmount,
                          join_with CHR '','' (map recipient_entry (recipients_of receivers))])"
    unfolding val by (simp only: db_get_put refl if_True)
  have others: "\<forall>k. k \<noteq> fmt_int (CountRecords (feehistory st) + 1) \<longrightarrow>
                  db_get h' k = db_get (feehistory st) k"
    unfolding val by (simp only: db_get_put) simp
  show "\<exists>st'. DistributeCache env st p block = Inr st' \<and>
              GetCachedAmount (feecache st') p = Inr 0 \<and>
              (\<forall>a q. mp_tally_map st' (a, q)
                        = mp_tally_map st (a, q) + (if q = p then share_of receivers a else 0)) \<and>
              (\<Sum>a\<in>snd ` set receivers. mp_tally_map st' (a, p) - mp_tally_map st (a, p))
                = cachedAmount \<and>
              feehistory st'
                = RecordFeeDistribution (feehistory st) p block cachedAmount (recipients_of receivers) \<and>
              db_get (feehistory st') (fmt_int (CountRecords (feehistory st) + 1))
                = Some (join_with CHR '':''
                          [fmt_int block, fmt_int (int p), fmt_int cachedAmount,
                           join_with CHR '','' (map recipient_entry (recipients_of receivers))]) \<and>
              (\<forall>k. k \<noteq> fmt_int (CountRecords (feehistory st) + 1) \<longrightarrow>
                     db_get (feehistory st') k = db_get (feehistory st) k)"
  proof (intro exI [of _ st'] conjI)
    show "DistributeCache env st p block = Inr st'" by (rule run)
    show "GetCachedAmount (feecache st') p = Inr 0"
      unfolding f by (rule db'(2))
    show "\<forall>a q. mp_tally_map st' (a, q)
                   = mp_tally_map st (a, q) + (if q = p then share_of receivers a else 0)"
      unfolding f using ledger by blast
    show "(\<Sum>a\<in>snd ` set receivers. mp_tally_map st' (a, p) - mp_tally_map st (a, p)) = cachedAmount"
      unfolding f by (rule total)
    show "feehistory st'
            = RecordFeeDistribution (feehistory st) p block cachedAmount (recipients_of receivers)"
      unfolding f by (rule h'_def)
    show "db_get (feehistory st') (fmt_int (CountRecords (feehistory st) + 1))
            = Some (join_with CHR '':''
                      [fmt_int block, fmt_int (int p), fmt_int cachedAmount,
                       join_with CHR '','' (map recipient_entry (recipients_of receivers))])"
      unfolding f by (rule rec)
    show "\<forall>k. k \<noteq> fmt_int (CountRecords (feehistory st) + 1) \<longrightarrow>
                db_get (feehistory st') k = db_get (feehistory st) k"
      unfolding f by (rule others)
  qed
qed

theorem DistributeCache_exact_witness:
  "GetCacheHistory (feecache example_state_cached) 3 = Inr [(100, 5), (200, 7)] \<and>
   GetCachedAmount (feecache example_state_cached) 3 = Inr 7 \<and>
   STO_GetReceivers example_env (mp_tally_map example_state_cached) ''FEEDISTRIBUTION''
     (if isTestEcosystemProperty example_env 3 then EXODUS_PROPERTY_TEXODUS example_env
      else EXODUS_PROPERTY_EXODUS example_env) 7
   = [(3, ''addrA''), (4, ''addrB'')] \<and>
   (\<forall>t. tally_accepts example_env t ''addrA'' 3 3 \<and> tally_accepts example_env t ''addrB'' 3 4) \<and>
   int32_range 300 \<and> sum_list (map fst [(3 :: int, ''addrA''), (4, ''addrB'')]) = 7 \<and>
   (\<exists>st'. DistributeCache example_env example_state_cached 3 300 = Inr st' \<and>
      GetCachedAmount (feecache st') 3 = Inr 0 \<and>
      mp_tally_map st' (''addrA'', 3) = 3 \<and> mp_tally_map st' (''addrB'', 3) = 4 \<and>
      mp_tally_map st' (''addrA'', 1) = 0 \<and>
      db_get (feehistory st') ''1'' = Some ''300:3:7:addrA=3,addrB=4'')"
proof -
  let ?rs = "[(3 :: int, ''addrA''), (4, ''addrB'')]"
  have hist: "GetCacheHistory (feecache example_state_cached) 3 = Inr [(100, 5), (200, 7)]"
    using example_cache_history by (simp add: example_state_cached_def)
  have cached: "GetCachedAmount (feecache example_state_cached) 3 = Inr 7"
    using example_cached_amount by (simp add: example_state_cached_def)
  have acc: "\<forall>t. tally_accepts example_env t ''addrA'' 3 3 \<and> tally_accepts example_env t ''addrB'' 3 4"
    by (simp add: example_env_def)
  then have accepted: "\<forall>t. \<forall>r\<in>set ?rs. tally_accepts example_env t (snd r) 3 (fst r)"
    by simp
  have block: "int32_range 300"
    by (simp add: int32_range_def)
  have total: "sum_list (map fst ?rs) = 7"
    by simp
  have key: "fmt_int (CountRecords (feehistory example_state_cached) + 1) = ''1''"
    by code_simp
  have val: "join_with CHR '':''
               [fmt_int 300, fmt_int (int 3), fmt_int 7,
                join_with CHR '','' (map recipient_entry (recipients_of ?rs))]
             = ''300:3:7:addrA=3,addrB=4''"
    by code_simp
  have zero: "mp_tally_map example_state_cached (a, q) = 0" for a q
    by (simp add: example_state_cached_def example_state_def)
  from DistributeCache_exact [OF hist cached example_receivers [symmetric] accepted block]
  have "\<exists>st'. DistributeCache example_env example_state_cached 3 300 = Inr st' \<and>
      GetCachedAmount (feecache st') 3 = Inr 0 \<and>
      (\<forall>a q. mp_tally_map st' (a, q)
                = mp_tally_map example_state_cached (a, q) + (if q = 3 then share_of ?rs a else 0)) \<and>
      db_get (feehistory st') (fmt_int (CountRecords (feehistory example_state_cached) + 1))
        = Some (join_with CHR '':''
                  [fmt_int 300, fmt_int (int 3), fmt_int 7,
                   join_with CHR '','' (map recipient_entry (recipients_of ?rs))])"
    using total by auto
  then obtain st' where st': "DistributeCache example_env example_state_cached 3 300 = Inr st'"
      "GetCachedAmount (feecache st') 3 = Inr 0"
      "\<And>a q. mp_tally_map st' (a, q) = (if q = 3 then share_of ?rs a else 0)"
      "db_get (feehistory st') ''1'' = Some ''300:3:7:addrA=3,addrB=4''"
    unfolding key val zero by auto
  have "mp_tally_map st' (''addrA'', 3) = 3" "mp_tally_map st' (''addrB'', 3) = 4"
      "mp_tally_map st' (''addrA'', 1) = 0"
    by (simp_all add: st'(3) share_of_def)
  with st' have "\<exists>st'. DistributeCache example_env example_state_cached 3 300 = Inr st' \<and>
      GetCachedAmount (feecache st') 3 = Inr 0 \<and>
      mp_tally_map st' (''addrA'', 3) = 3 \<and> mp_tally_map st' (''addrB'', 3) = 4 \<and>
      mp_tally_map st' (''addrA'', 1) = 0 \<and>
      db_get (feehistory st') ''1'' = Some ''300:3:7:addrA=3,addrB=4''"
    by blast
  with hist cached example_receivers acc block total show ?thesis
    by blast
qed

text \<open>
  Claim C8. In AddFee the fatal accounting fault arises exactly when the current cached
  amount is > 0 and adding the new amount would exceed the greatest int64_t. It is then
  reported; without the override the persisted state is erased and the node aborted in
  that state, nothing written to the cache; with the override the addition proceeds (and
  wraps around). In every other case nothing is reported or erased, and AddFee writes
  current + amount as the entry of the block before it prunes and evaluates.
\<close>

theorem AddFee_overflow_check:
  assumes hist: "GetCacheHistory (feecache st) p = Inr items"
    and cur: "GetCachedAmount (feecache st) p = Inr current"
    and block: "int32_range block" and amount: "int64_range amount"
  shows "(0 < current \<and> INT64_MAX < current + amount \<and> \<not> overrideforcedshutdown env \<longrightarrow>
            AddFee env st p block amount
              = Inl (node_aborted (overflow_msg block p current amount)
                      (st\<lparr>fatal_log := fatal_log st @ [overflow_msg block p current amount],
                          MP_persist := False\<rparr>))) \<and>
         (\<not> (0 < current \<and> INT64_MAX < current + amount \<and> \<not> overrideforcedshutdown env) \<longrightarrow>
            (\<exists>db_w. GetCacheHistory db_w p
                       = Inr (replace_entry items block (int64_wrap (current + amount))) \<and>
               (\<forall>k. k \<noteq> fmt_010d p \<longrightarrow> db_get db_w k = db_get (feecache st) k) \<and>
               AddFee env st p block amount
                 = (case PruneCache env db_w p block of
                      Inl e \<Rightarrow> Inl e
                    | Inr db \<Rightarrow>
                        EvalCache env
                          ((if 0 < current \<and> INT64_MAX < current + amount
                            then st\<lparr>fatal_log := fatal_log st @ [overflow_msg block p current amount]\<rparr>
                            else st)\<lparr>feecache := db\<rparr>) p block))) \<and>
         (\<not> (0 < current \<and> INT64_MAX < current + amount) \<and> - (2 ^ 63) \<le> current + amount \<longrightarrow>
            int64_wrap (current + amount) = current + amount) \<and>
         (\<forall>m s. AddFee env st p block amount = Inl (node_aborted m s) \<longrightarrow>
            0 < current \<and> INT64_MAX < current + amount \<and> \<not> overrideforcedshutdown env) \<and>
         (\<forall>st'. AddFee env st p block amount = Inr st' \<longrightarrow>
            MP_persist st' = MP_persist st \<and>
            fatal_log st'
              = (if 0 < current \<and> INT64_MAX < current + amount
                 then fatal_log st @ [overflow_msg block p current amount] else fatal_log st))"
proof -
  let ?over = "0 < current \<and> INT64_MAX < current + amount"
  let ?msg = "overflow_msg block p current amount"
  let ?st1 = "st\<lparr>fatal_log := fatal_log st @ [?msg]\<rparr>"
  let ?stw = "if ?over then ?st1 else st"
  have abort: "AddFee env st p block amount = Inl (node_aborted ?msg (?st1\<lparr>MP_persist := False\<rparr>))"
    if "?over" "\<not> overrideforcedshutdown env"
    unfolding AddFee_cases [OF cur] using that by simp
  have wr: "AddFee env st p block amount = AddFee_write env ?stw p block current amount"
    if "\<not> (?over \<and> \<not> overrideforcedshutdown env)"
    unfolding AddFee_cases [OF cur] using that by (cases "?over") auto
  have hist': "GetCacheHistory (feecache ?stw) p = Inr items"
    using hist by simp
  have c1: "?over \<and> \<not> overrideforcedshutdown env \<longrightarrow>
              AddFee env st p block amount
                = Inl (node_aborted ?msg (st\<lparr>fatal_log := fatal_log st @ [?msg], MP_persist := False\<rparr>))"
    using abort by simp
  have c2: "\<not> (?over \<and> \<not> overrideforcedshutdown env) \<longrightarrow>
              (\<exists>db_w. GetCacheHistory db_w p
                         = Inr (replace_entry items block (int64_wrap (current + amount))) \<and>
                 (\<forall>k. k \<noteq> fmt_010d p \<longrightarrow> db_get db_w k = db_get (feecache st) k) \<and>
                 AddFee env st p block amount
                   = (case PruneCache env db_w p block of
                        Inl e \<Rightarrow> Inl e
                      | Inr db \<Rightarrow> EvalCache env (?stw\<lparr>feecache := db\<rparr>) p block))"
  proof
    assume n: "\<not> (?over \<and> \<not> overrideforcedshutdown env)"
    from AddFee_write_result [OF hist' block, of current amount env]
    obtain db_w where h: "GetCacheHistory db_w p
                         = Inr (replace_entry items block (int64_wrap (current + amount)))"
      and k: "\<forall>k. k \<noteq> fmt_010d p \<longrightarrow> db_get db_w k = db_get (feecache ?stw) k"
      and w: "AddFee_write env ?stw p block current amount
         = (case PruneCache env db_w p block of
              Inl e \<Rightarrow> Inl e
            | Inr db \<Rightarrow> EvalCache env (?stw\<lparr>feecache := db\<rparr>) p block)"
      by blast
    have "feecache ?stw = feecache st" by simp
    with k have k': "\<forall>k. k \<noteq> fmt_010d p \<longrightarrow> db_get db_w k = db_get (feecache st) k"
      by (simp only:)
    have "AddFee env st p block amount
            = (case PruneCache env db_w p block of
                 Inl e \<Rightarrow> Inl e
               | Inr db \<Rightarrow> EvalCache env (?stw\<lparr>feecache := db\<rparr>) p block)"
      unfolding wr [OF n] by (rule w)
    with h k' show "\<exists>db_w. GetCacheHistory db_w p
                         = Inr (replace_entry items block (int64_wrap (current + amount))) \<and>
                 (\<forall>k. k \<noteq> fmt_010d p \<longrightarrow> db_get db_w k = db_get (feecache st) k) \<and>
                 AddFee env st p block amount
                   = (case PruneCache env db_w p block of
                        Inl e \<Rightarrow> Inl e
                      | Inr db \<Rightarrow> EvalCache env (?stw\<lparr>feecache := db\<rparr>) p block)"
      by blast
  qed
  have c3: "\<not> ?over \<and> - (2 ^ 63) \<le> current + amount \<longrightarrow>
              int64_wrap (current + amount) = current + amount"
  proof
    assume a: "\<not> ?over \<and> - (2 ^ 63) \<le> current + amount"
    have "current + amount < 2 ^ 63"
      using a amount by (auto simp: INT64_MAX_def int64_range_def)
    with a show "int64_wrap (current + amount) = current + amount"
      by (intro int64_wrap_id) (simp add: int64_range_def)
  qed
  have c4: "\<forall>m s. AddFee env st p block amount = Inl (node_aborted m s) \<longrightarrow>
              ?over \<and> \<not> overrideforcedshutdown env"
  proof (intro allI impI)
    fix m s assume ab: "AddFee env st p block amount = Inl (node_aborted m s)"
    show "?over \<and> \<not> overrideforcedshutdown env"
    proof (rule ccontr)
      assume n: "\<not> (?over \<and> \<not> overrideforcedshutdown env)"
      from wr [OF n] ab have "AddFee_write env ?stw p block current amount = Inl (node_aborted m s)"
        by simp
      from AddFee_write_fault [OF this] show False by simp
    qed
  qed
  have c5: "\<forall>st'. AddFee env st p block amount = Inr st' \<longrightarrow>
              MP_persist st' = MP_persist st \<and>
              fatal_log st' = (if ?over then fatal_log st @ [?msg] else fatal_log st)"
  proof (intro allI impI)
    fix st' assume r: "AddFee env st p block amount = Inr st'"
    have n: "\<not> (?over \<and> \<not> overrideforcedshutdown env)"
      using abort r by auto
    from wr [OF n] r have "AddFee_write env ?stw p block current amount = Inr st'"
      by simp
    from AddFee_write_Inr [OF this]
    show "MP_persist st' = MP_persist st \<and>
          fatal_log st' = (if ?over then fatal_log st @ [?msg] else fatal_log st)"
      by (simp split: if_splits)
  qed
  have c1': "0 < current \<and> INT64_MAX < current + amount \<and> \<not> overrideforcedshutdown env \<longrightarrow>
              AddFee env st p block amount
                = Inl (node_aborted ?msg (st\<lparr>fatal_log := fatal_log st @ [?msg], MP_persist := False\<rparr>))"
    using c1 by (simp only: conj_assoc)
  have c2': "\<not> (0 < current \<and> INT64_MAX < current + amount \<and> \<not> overrideforcedshutdown env) \<longrightarrow>
              (\<exists>db_w. GetCacheHistory db_w p
                         = Inr (replace_entry items block (int64_wrap (current + amount))) \<and>
                 (\<forall>k. k \<noteq> fmt_010d p \<longrightarrow> db_get db_w k = db_get (feecache st) k) \<and>
                 AddFee env st p block amount
                   = (case PruneCache env db_w p block of
                        Inl e \<Rightarrow> Inl e
                      | Inr db \<Rightarrow> EvalCache env (?stw\<lparr>feecache := db\<rparr>) p block))"
    using c2 by (simp only: conj_assoc)
  have c4': "\<forall>m s. AddFee env st p block amount = Inl (node_aborted m s) \<longrightarrow>
              0 < current \<and> INT64_MAX < current + amount \<and> \<not> overrideforcedshutdown env"
    using c4 by (simp only: conj_assoc)
  show ?thesis
    by (intro conjI) (fact c1' c2' c3 c4' c5)+
qed

theorem AddFee_overflow_check_witness:
  "GetCacheHistory (feecache example_state_full) 3 = Inr [(100, 9223372036854775807)] \<and>
   GetCachedAmount (feecache example_state_full) 3 = Inr 9223372036854775807 \<and>
   int32_range 101 \<and> int64_range 1 \<and>
   (0 :: int) < 9223372036854775807 \<and> INT64_MAX < 9223372036854775807 + 1 \<and>
   \<not> overrideforcedshutdown example_env \<and>
   AddFee example_env example_state_full 3 101 1
     = Inl (node_aborted (overflow_msg 101 3 9223372036854775807 1)
             (example_state_full
                \<lparr>fatal_log := fatal_log example_state_full @ [overflow_msg 101 3 9223372036854775807 1],
                 MP_persist := False\<rparr>)) \<and>
   GetCacheHistory (feecache example_state_cached) 3 = Inr [(100, 5), (200, 7)] \<and>
   GetCachedAmount (feecache example_state_cached) 3 = Inr 7 \<and>
   int32_range 201 \<and> int64_range 5 \<and> \<not> INT64_MAX < (7 :: int) + 5 \<and>
   (\<exists>db_w. GetCacheHistory db_w 3 = Inr [(100, 5), (200, 7), (201, 12)] \<and>
      AddFee example_env example_state_cached 3 201 5
        = (case PruneCache example_env db_w 3 201 of
             Inl e \<Rightarrow> Inl e
           | Inr db \<Rightarrow> EvalCache example_env (example_state_cached\<lparr>feecache := db\<rparr>) 3 201))"
proof -
  have cur: "GetCachedAmount (feecache example_state_full) 3 = Inr 9223372036854775807"
    using example_full_history by (simp add: GetCachedAmount_def)
  have r: "int32_range 101" "int64_range 1" "int32_range 201" "int64_range 5"
    by (simp_all add: int32_range_def int64_range_def)
  have over: "(0 :: int) < 9223372036854775807" "INT64_MAX < 9223372036854775807 + 1"
      "\<not> overrideforcedshutdown example_env"
    by (simp_all add: INT64_MAX_def example_env_def)
  have first: "AddFee example_env example_state_full 3 101 1
     = Inl (node_aborted (overflow_msg 101 3 9223372036854775807 1)
             (example_state_full
                \<lparr>fatal_log := fatal_log example_state_full @ [overflow_msg 101 3 9223372036854775807 1],
                 MP_persist := False\<rparr>))"
    using AddFee_overflow_check [OF example_full_history cur r(1,2), of example_env] over
    by blast
  have hist2: "GetCacheHistory (feecache example_state_cached) 3 = Inr [(100, 5), (200, 7)]"
    using example_cache_history by (simp add: example_state_cached_def)
  have cur2: "GetCachedAmount (feecache example_state_cached) 3 = Inr 7"
    using example_cached_amount by (simp add: example_state_cached_def)
  have no: "\<not> INT64_MAX < (7 :: int) + 5"
    by (simp add: INT64_MAX_def)
  have new: "replace_entry [(100, 5), (200, 7)] 201 (int64_wrap (7 + 5)) = [(100, 5), (200, 7), (201, 12)]"
    by code_simp
  have "\<exists>db_w. GetCacheHistory db_w 3
                  = Inr (replace_entry [(100, 5), (200, 7)] 201 (int64_wrap (7 + 5))) \<and>
      AddFee example_env example_state_cached 3 201 5
        = (case PruneCache example_env db_w 3 201 of
             Inl e \<Rightarrow> Inl e
           | Inr db \<Rightarrow> EvalCache example_env (example_state_cached\<lparr>feecache := db\<rparr>) 3 201)"
    using AddFee_overflow_check [OF hist2 cur2 r(3,4), of example_env] no
    by auto
  then have second: "\<exists>db_w. GetCacheHistory db_w 3 = Inr [(100, 5), (200, 7), (201, 12)] \<and>
      AddFee example_env example_state_cached 3 201 5
        = (case PruneCache example_env db_w 3 201 of
             Inl e \<Rightarrow> Inl e
           | Inr db \<Rightarrow> EvalCache example_env (example_state_cached\<lparr>feecache := db\<rparr>) 3 201)"
    unfolding new .
  from example_full_history cur r over first hist2 cur2 no second show ?thesis
    by blast
qed

text \<open>
  Claim C2, as stated: after every sequence of AddFee calls to one property, the entry of
  a block holds the running total, and AddFee(3, 100, 50) followed by AddFee(3, 100, 20)
  leaves exactly the entry (100, 70). It fails in three ways. On a node that has stored no
  threshold for property 3 the threshold reads 0, every call distributes what it cached,
  and the two calls leave (100, 0). With the threshold 100 stored, the calls (200, 50),
  (100, 20), (300, 1), which are not in block order, leave (100, 70), (200, 50), (300, 51),
  while the amounts add up to 71. With the same threshold the calls (200, 60), (201, 45)
  reach 105, the cache is distributed, and they leave (200, 60), (201, 0).
\<close>

theorem AddFee_running_total_counterexample:
  "distributionThresholds example_state 3 = None \<and>
   returned_cache (AddFee_calls example_env example_state 3 [(100, 50), (100, 20)])
     = Some [(''0000000003'', ''100:0'')] \<and>
   GetCacheHistory [(''0000000003'', ''100:0'')] 3 = Inr [(100, 0)] \<and>
   distributionThresholds example_state_threshold 3 = Some 100 \<and>
   returned_cache (AddFee_calls example_env example_state_threshold 3 [(200, 50), (100, 20), (300, 1)])
     = Some [(''0000000003'', ''100:70,200:50,300:51'')] \<and>
   GetCacheHistory [(''0000000003'', ''100:70,200:50,300:51'')] 3
     = Inr [(100, 70), (200, 50), (300, 51)] \<and>
   sum_list (map snd [(200 :: int, 50 :: int), (100, 20), (300, 1)]) = 71 \<and>
   returned_cache (AddFee_calls example_env example_state_threshold 3 [(200, 60), (201, 45)])
     = Some [(''0000000003'', ''200:60,201:0'')] \<and>
   GetCacheHistory [(''0000000003'', ''200:60,201:0'')] 3 = Inr [(200, 60), (201, 0)] \<and>
   sum_list (map snd [(200 :: int, 60 :: int), (201, 45)]) = 105"
  using example_state_no_threshold example_fees_no_threshold example_fees_histories(1,2,3)
    example_threshold_state(3) example_fees_out_of_order example_fees_crossing
  by simp

text \<open>
  Claim C2, amended. After any sequence of AddFee calls to one property that returns,
  started from a history with at most one entry per block height, the history has at most
  one entry per block height. When the calls come in block order at or after every stored
  height, with amounts that are not negative, and the amount cached before plus all the
  amounts added stays below the distribution threshold stored for the property, the
  sequence returns and every entry at the block of a call holds the running total up to
  that block, the amount cached before plus the amounts of the calls at or before the
  block, while every other entry is an entry of the history before the calls. The entry
  of the last block is present, is the only one of its block and is the cached amount
  afterwards. With the threshold 100 stored, AddFee(3, 100, 50) followed by
  AddFee(3, 100, 20) leaves exactly the entry (100, 70).
\<close>

theorem AddFee_calls_one_entry_per_block:
  assumes hist: "GetCacheHistory (feecache st) p = Inr items0"
    and dist: "distinct (map fst items0)"
    and ranges: "\<forall>c\<in>set calls. int32_range (fst c) \<and> int64_range (snd c)"
  shows "(\<forall>st'. AddFee_calls env st p calls = Inr st' \<longrightarrow>
            (\<exists>items. GetCacheHistory (feecache st') p = Inr items \<and> distinct (map fst items))) \<and>
         (calls \<noteq> [] \<and> sorted (map fst calls) \<and> (\<forall>c\<in>set calls. 0 \<le> snd c) \<and>
          (\<forall>i\<in>set items0. \<forall>c\<in>set calls. fst i \<le> fst c) \<and>
          GetCachedAmount (feecache st) p = Inr current \<and> 0 \<le> current \<and>
          distributionThresholds st p = Some thr \<and> int64_range thr \<and>
          current + sum_list (map snd calls) < thr \<longrightarrow>
            (\<exists>st' items. AddFee_calls env st p calls = Inr st' \<and>
               GetCacheHistory (feecache st') p = Inr items \<and> distinct (map fst items) \<and>
               (\<forall>i\<in>set items.
                  if fst i \<in> fst ` set calls then snd i = running_total current calls (fst i)
                  else i \<in> set items0) \<and>
               items \<noteq> [] \<and>
               last items = (fst (last calls), current + sum_list (map snd calls)) \<and>
               (\<forall>i\<in>set items. fst i = fst (last calls) \<longrightarrow>
                  i = (fst (last calls), current + sum_list (map snd calls))) \<and>
               running_total current calls (fst (last calls)) = current + sum_list (map snd calls) \<and>
               GetCachedAmount (feecache st') p = Inr (current + sum_list (map snd calls))))"
proof (intro conjI allI impI)
  fix st' assume "AddFee_calls env st p calls = Inr st'"
  moreover have "\<forall>c\<in>set calls. int32_range (fst c)"
    using ranges by simp
  ultimately show "\<exists>items. GetCacheHistory (feecache st') p = Inr items \<and> distinct (map fst items)"
    using hist dist by (intro AddFee_calls_distinct_heights)
next
  let ?total = "current + sum_list (map snd calls)"
  assume a: "calls \<noteq> [] \<and> sorted (map fst calls) \<and> (\<forall>c\<in>set calls. 0 \<le> snd c) \<and>
          (\<forall>i\<in>set items0. \<forall>c\<in>set calls. fst i \<le> fst c) \<and>
          GetCachedAmount (feecache st) p = Inr current \<and> 0 \<le> current \<and>
          distributionThresholds st p = Some thr \<and> int64_range thr \<and>
          current + sum_list (map snd calls) < thr"
  have r: "\<forall>c\<in>set calls. int32_range (fst c) \<and> 0 \<le> snd c"
    using ranges a by simp
  have "\<exists>st' items'. AddFee_calls env st p calls = Inr st' \<and>
           GetCacheHistory (feecache st') p = Inr items' \<and> items' \<noteq> [] \<and>
           last items' = (fst (last calls), ?total) \<and>
           GetCachedAmount (feecache st') p = Inr ?total"
    using hist a r by (intro AddFee_calls_running_total [where thr = thr and items = items0]) simp_all
  then obtain st' items where
    run: "AddFee_calls env st p calls = Inr st'"
    and h: "GetCacheHistory (feecache st') p = Inr items" and ne: "items \<noteq> []"
    and l: "last items = (fst (last calls), ?total)"
    and c: "GetCachedAmount (feecache st') p = Inr ?total"
    by blast
  have "\<exists>st' items'. AddFee_calls env st p calls = Inr st' \<and>
           GetCacheHistory (feecache st') p = Inr items' \<and>
           (\<forall>i\<in>set items'.
              if fst i \<in> fst ` set calls then snd i = running_total current calls (fst i)
              else i \<in> set items0)"
    using hist a r by (intro AddFee_calls_entries [where thr = thr]) simp_all
  with run h have e: "\<forall>i\<in>set items.
              if fst i \<in> fst ` set calls then snd i = running_total current calls (fst i)
              else i \<in> set items0"
    by auto
  have rt: "running_total current calls (fst (last calls)) = ?total"
    using a by (intro running_total_last) simp_all
  have "\<forall>c\<in>set calls. int32_range (fst c)"
    using ranges by simp
  from AddFee_calls_distinct_heights [OF run hist dist this] h
  have d: "distinct (map fst items)" by simp
  then have inj: "inj_on fst (set items)"
    by (simp add: distinct_map)
  have mem: "(fst (last calls), ?total) \<in> set items"
    using ne l last_in_set [of items] by simp
  have only: "\<forall>i\<in>set items. fst i = fst (last calls) \<longrightarrow> i = (fst (last calls), ?total)"
  proof (intro ballI impI)
    fix i assume i: "i \<in> set items" "fst i = fst (last calls)"
    then have eq: "fst i = fst (fst (last calls), ?total)"
      by simp
    from inj eq i(1) mem show "i = (fst (last calls), ?total)"
      by (rule inj_onD)
  qed
  show "\<exists>st' items. AddFee_calls env st p calls = Inr st' \<and>
               GetCacheHistory (feecache st') p = Inr items \<and> distinct (map fst items) \<and>
               (\<forall>i\<in>set items.
                  if fst i \<in> fst ` set calls then snd i = running_total current calls (fst i)
                  else i \<in> set items0) \<and>
               items \<noteq> [] \<and>
               last items = (fst (last calls), ?total) \<and>
               (\<forall>i\<in>set items. fst i = fst (last calls) \<longrightarrow> i = (fst (last calls), ?total)) \<and>
               running_total current calls (fst (last calls)) = ?total \<and>
               GetCachedAmount (feecache st') p = Inr ?total"
    by (intro exI conjI) (fact run h d e ne l only rt c)+
qed

theorem AddFee_calls_one_entry_per_block_witness:
  "GetCacheHistory (feecache example_state_threshold) 3 = Inr [] \<and>
   GetCachedAmount (feecache example_state_threshold) 3 = Inr 0 \<and>
   distributionThresholds example_state_threshold 3 = Some 100 \<and> int64_range 100 \<and>
   int32_range 100 \<and> int32_range 101 \<and> int64_range 50 \<and> int64_range 20 \<and> int64_range 10 \<and>
   sorted (map fst [(100 :: int, 50 :: int), (100, 20)]) \<and>
   (0 :: int) + sum_list (map snd [(100 :: int, 50 :: int), (100, 20)]) < 100 \<and>
   (\<exists>st' items. AddFee_calls example_env example_state_threshold 3 [(100, 50), (100, 20)] = Inr st' \<and>
      GetCacheHistory (feecache st') 3 = Inr items \<and> distinct (map fst items) \<and>
      set items = {(100, 70)} \<and> last items = (100, 70) \<and>
      GetCachedAmount (feecache st') 3 = Inr 70) \<and>
   returned_cache (AddFee_calls example_env example_state_threshold 3 [(100, 50)])
     = Some [(''0000000003'', ''100:50'')] \<and>
   returned_cache (AddFee_calls example_env example_state_threshold 3 [(100, 50), (100, 20)])
     = Some [(''0000000003'', ''100:70'')] \<and>
   GetCacheHistory [(''0000000003'', ''100:70'')] 3 = Inr [(100, 70)] \<and>
   sorted (map fst [(100 :: int, 50 :: int), (100, 20), (101, 10)]) \<and>
   (0 :: int) + sum_list (map snd [(100 :: int, 50 :: int), (100, 20), (101, 10)]) < 100 \<and>
   running_total 0 [(100, 50), (100, 20), (101, 10)] 100 = 70 \<and>
   running_total 0 [(100, 50), (100, 20), (101, 10)] 101 = 80 \<and>
   (\<exists>st' items.
      AddFee_calls example_env example_state_threshold 3 [(100, 50), (100, 20), (101, 10)] = Inr st' \<and>
      GetCacheHistory (feecache st') 3 = Inr items \<and> distinct (map fst items) \<and>
      (\<forall>i\<in>set items. i = (100, 70) \<or> i = (101, 80)) \<and> last items = (101, 80) \<and>
      GetCachedAmount (feecache st') 3 = Inr 80) \<and>
   returned_cache
       (AddFee_calls example_env example_state_threshold 3 [(100, 50), (100, 20), (101, 10)])
     = Some [(''0000000003'', ''100:70,101:80'')] \<and>
   GetCacheHistory [(''0000000003'', ''100:70,101:80'')] 3 = Inr [(100, 70), (101, 80)]"
proof -
  let ?calls = "[(100 :: int, 50 :: int), (100, 20)]"
  let ?calls3 = "[(100 :: int, 50 :: int), (100, 20), (101, 10)]"
  have d: "distinct (map fst ([] :: feeCacheItem list))" by simp
  have r: "int64_range 100" "int32_range 100" "int32_range 101"
      "int64_range 50" "int64_range 20" "int64_range 10"
    by (simp_all add: int32_range_def int64_range_def)
  then have ranges: "\<forall>c\<in>set ?calls. int32_range (fst c) \<and> int64_range (snd c)"
    and ranges3: "\<forall>c\<in>set ?calls3. int32_range (fst c) \<and> int64_range (snd c)"
    by simp_all
  have s: "sorted (map fst ?calls)" "(0 :: int) + sum_list (map snd ?calls) < 100"
      "sorted (map fst ?calls3)" "(0 :: int) + sum_list (map snd ?calls3) < 100"
    by simp_all
  have rt: "running_total 0 ?calls3 100 = 70" "running_total 0 ?calls3 101 = 80"
    by (simp_all add: running_total_def)
  have pre: "?calls \<noteq> [] \<and> sorted (map fst ?calls) \<and> (\<forall>c\<in>set ?calls. 0 \<le> snd c) \<and>
          (\<forall>i\<in>set ([] :: feeCacheItem list). \<forall>c\<in>set ?calls. fst i \<le> fst c) \<and>
          GetCachedAmount (feecache example_state_threshold) 3 = Inr 0 \<and> (0 :: int) \<le> 0 \<and>
          distributionThresholds example_state_threshold 3 = Some 100 \<and> int64_range 100 \<and>
          0 + sum_list (map snd ?calls) < 100"
    using example_threshold_state r by simp
  from AddFee_calls_one_entry_per_block [OF example_threshold_state(1) d ranges,
      of example_env 0 100] pre
  obtain st' items where
    run: "AddFee_calls example_env example_state_threshold 3 ?calls = Inr st'"
    and h: "GetCacheHistory (feecache st') 3 = Inr items" and di: "distinct (map fst items)"
    and e: "\<forall>i\<in>set items.
              if fst i \<in> fst ` set ?calls then snd i = running_total 0 ?calls (fst i)
              else i \<in> set []"
    and ne: "items \<noteq> []"
    and l: "last items = (fst (last ?calls), 0 + sum_list (map snd ?calls))"
    and c: "GetCachedAmount (feecache st') 3 = Inr (0 + sum_list (map snd ?calls))"
    by blast
  have l': "last items = (100, 70)" and c': "GetCachedAmount (feecache st') 3 = Inr 70"
    using l c by simp_all
  have all: "\<forall>i\<in>set items. i = (100, 70)"
  proof
    fix i assume "i \<in> set items"
    with e have "if fst i \<in> fst ` set ?calls then snd i = running_total 0 ?calls (fst i)
                 else i \<in> set []"
      by (rule bspec)
    then have "fst i = 100 \<and> snd i = running_total 0 ?calls 100"
      by (auto split: if_splits)
    then have "fst i = 100 \<and> snd i = 70"
      by (simp add: running_total_def)
    then show "i = (100, 70)"
      by (simp add: prod_eq_iff)
  qed
  have mem: "(100, 70) \<in> set items"
    using ne l' last_in_set [of items] by simp
  have si: "set items = {(100, 70)}"
  proof
    show "set items \<subseteq> {(100, 70)}"
      using all by blast
    show "{(100, 70)} \<subseteq> set items"
      using mem by simp
  qed
  have main: "\<exists>st' items. AddFee_calls example_env example_state_threshold 3 ?calls = Inr st' \<and>
      GetCacheHistory (feecache st') 3 = Inr items \<and> distinct (map fst items) \<and>
      set items = {(100, 70)} \<and> last items = (100, 70) \<and>
      GetCachedAmount (feecache st') 3 = Inr 70"
    by (intro exI conjI) (fact run h di si l' c')+
  have pre3: "?calls3 \<noteq> [] \<and> sorted (map fst ?calls3) \<and> (\<forall>c\<in>set ?calls3. 0 \<le> snd c) \<and>
          (\<forall>i\<in>set ([] :: feeCacheItem list). \<forall>c\<in>set ?calls3. fst i \<le> fst c) \<and>
          GetCachedAmount (feecache example_state_threshold) 3 = Inr 0 \<and> (0 :: int) \<le> 0 \<and>
          distributionThresholds example_state_threshold 3 = Some 100 \<and> int64_range 100 \<and>
          0 + sum_list (map snd ?calls3) < 100"
    using example_threshold_state r by simp
  from AddFee_calls_one_entry_per_block [OF example_threshold_state(1) d ranges3,
      of example_env 0 100] pre3
  obtain st3 items3 where
    run3: "AddFee_calls example_env example_state_threshold 3 ?calls3 = Inr st3"
    and h3: "GetCacheHistory (feecache st3) 3 = Inr items3" and di3: "distinct (map fst items3)"
    and e3: "\<forall>i\<in>set items3.
              if fst i \<in> fst ` set ?calls3 then snd i = running_total 0 ?calls3 (fst i)
              else i \<in> set []"
    and l3: "last items3 = (fst (last ?calls3), 0 + sum_list (map snd ?calls3))"
    and c3: "GetCachedAmount (feecache st3) 3 = Inr (0 + sum_list (map snd ?calls3))"
    by blast
  have l3': "last items3 = (101, 80)" and c3': "GetCachedAmount (feecache st3) 3 = Inr 80"
    using l3 c3 by simp_all
  have all3: "\<forall>i\<in>set items3. i = (100, 70) \<or> i = (101, 80)"
  proof
    fix i assume "i \<in> set items3"
    with e3 have "if fst i \<in> fst ` set ?calls3 then snd i = running_total 0 ?calls3 (fst i)
                 else i \<in> set []"
      by (rule bspec)
    then have "fst i = 100 \<and> snd i = running_total 0 ?calls3 100
                 \<or> fst i = 101 \<and> snd i = running_total 0 ?calls3 101"
      by (auto split: if_splits)
    then have "fst i = 100 \<and> snd i = 70 \<or> fst i = 101 \<and> snd i = 80"
      unfolding rt .
    then show "i = (100, 70) \<or> i = (101, 80)"
      by (auto simp: prod_eq_iff)
  qed
  have main3: "\<exists>st' items. AddFee_calls example_env example_state_threshold 3 ?calls3 = Inr st' \<and>
      GetCacheHistory (feecache st') 3 = Inr items \<and> distinct (map fst items) \<and>
      (\<forall>i\<in>set items. i = (100, 70) \<or> i = (101, 80)) \<and> last items = (101, 80) \<and>
      GetCachedAmount (feecache st') 3 = Inr 80"
    by (intro exI conjI) (fact run3 h3 di3 all3 l3' c3')+
  show ?thesis
    by (intro conjI) (fact example_threshold_state r s main example_two_fees
        example_two_fees_history rt main3 example_fees_three example_fees_histories(4))+
qed

end
